theory Spec2Isabelle
  imports Main "HOL-Library.AList"
begin

section \<open>The notification primitive (core/events.ts)\<close>

text \<open>
  \<^verbatim>\<open>EventEmitter\<close> keeps \<^verbatim>\<open>handlers: Map<event, Set<handler>>\<close>. A JavaScript
  \<^verbatim>\<open>Set\<close> iterates in insertion order and compares function objects by identity, so a
  handler set is a list without duplicates, and a function object is named by an identity.

  Two kinds of function object reach the set: a function supplied by the caller
  (\<open>UserFn f\<close>), and the closure \<^verbatim>\<open>onceHandler\<close> that \<^verbatim>\<open>once\<close> creates
  (\<open>OnceFn k ev f\<close>: the \<open>k\<close>-th closure created by this emitter, for event \<open>ev\<close>,
  wrapping the caller's function \<open>f\<close>).

  A caller's function is opaque: what the model keeps of a call \<open>f(data)\<close> is that it
  happened (the log \<open>calls\<close>) and whether it threw (\<open>thr f data\<close>). A caller's function
  that itself subscribes or unsubscribes handlers while it runs is outside this model; the
  closure of \<^verbatim>\<open>once\<close>, which does unsubscribe itself while running, is inside it.
\<close>

type_synonym ename = string

datatype handler = UserFn nat | OnceFn nat ename nat

fun target :: "handler \<Rightarrow> nat" where
  "target (UserFn f) = f"
| "target (OnceFn k ev f) = f"

record 'p EventEmitter =
  handlers :: "ename \<rightharpoonup> handler list"
  closures :: nat
  calls :: "(nat \<times> 'p) list"
  console_error :: "(ename \<times> nat) list"

definition new_EventEmitter :: "'p EventEmitter" where
  "new_EventEmitter = \<lparr>handlers = Map.empty, closures = 0, calls = [], console_error = []\<rparr>"

definition handlers_of :: "'p EventEmitter \<Rightarrow> ename \<Rightarrow> handler list" where
  "handlers_of em ev = (case handlers em ev of None \<Rightarrow> [] | Some hs \<Rightarrow> hs)"

text \<open>\<^verbatim>\<open>on\<close>: create the set if absent, then \<^verbatim>\<open>Set.add\<close> (no effect on a member).\<close>

definition on :: "ename \<Rightarrow> handler \<Rightarrow> 'p EventEmitter \<Rightarrow> 'p EventEmitter" where
  "on ev h em =
     (let hs = handlers_of em ev
      in em\<lparr>handlers := (handlers em)(ev \<mapsto> (if h \<in> set hs then hs else hs @ [h]))\<rparr>)"

text \<open>\<^verbatim>\<open>off\<close>: \<^verbatim>\<open>Set.delete\<close> when the event has a set, nothing otherwise.\<close>

definition off :: "ename \<Rightarrow> handler \<Rightarrow> 'p EventEmitter \<Rightarrow> 'p EventEmitter" where
  "off ev h em =
     (case handlers em ev of
        None \<Rightarrow> em
      | Some hs \<Rightarrow> em\<lparr>handlers := (handlers em)(ev \<mapsto> removeAll h hs)\<rparr>)"

text \<open>\<^verbatim>\<open>once\<close>: a fresh closure is created and subscribed with \<^verbatim>\<open>on\<close>.\<close>

definition once :: "ename \<Rightarrow> nat \<Rightarrow> 'p EventEmitter \<Rightarrow> 'p EventEmitter" where
  "once ev f em = on ev (OnceFn (closures em) ev f) (em\<lparr>closures := Suc (closures em)\<rparr>)"

text \<open>
  The call \<^verbatim>\<open>handler(data)\<close>. The result says whether the call threw. The closure of
  \<^verbatim>\<open>once\<close> first runs \<^verbatim>\<open>this.off(event, onceHandler)\<close>, then the wrapped function.
\<close>

fun call :: "(nat \<Rightarrow> 'p \<Rightarrow> bool) \<Rightarrow> handler \<Rightarrow> 'p \<Rightarrow> 'p EventEmitter \<Rightarrow> bool \<times> 'p EventEmitter" where
  "call thr (UserFn f) d em = (thr f d, em\<lparr>calls := calls em @ [(f, d)]\<rparr>)"
| "call thr (OnceFn k ev f) d em =
     (let em1 = off ev (OnceFn k ev f) em
      in (thr f d, em1\<lparr>calls := calls em1 @ [(f, d)]\<rparr>))"

text \<open>
  \<^verbatim>\<open>Set.forEach\<close> with the \<^verbatim>\<open>try/catch\<close> of \<^verbatim>\<open>emit\<close> as its body. The iteration
  walks the entries present when it started, in insertion order, and skips an entry that
  has been deleted before its turn (the membership test on the live set).
\<close>

fun forEach :: "(nat \<Rightarrow> 'p \<Rightarrow> bool) \<Rightarrow> ename \<Rightarrow> 'p \<Rightarrow> handler list \<Rightarrow> 'p EventEmitter \<Rightarrow> 'p EventEmitter" where
  "forEach thr ev d [] em = em"
| "forEach thr ev d (h # hs) em =
     (if h \<in> set (handlers_of em ev)
      then (case call thr h d em of
              (threw, em1) \<Rightarrow>
                forEach thr ev d hs
                  (if threw then em1\<lparr>console_error := console_error em1 @ [(ev, target h)]\<rparr>
                   else em1))
      else forEach thr ev d hs em)"

definition emit :: "(nat \<Rightarrow> 'p \<Rightarrow> bool) \<Rightarrow> ename \<Rightarrow> 'p \<Rightarrow> 'p EventEmitter \<Rightarrow> 'p EventEmitter" where
  "emit thr ev d em =
     (case handlers em ev of
        None \<Rightarrow> em
      | Some hs \<Rightarrow> forEach thr ev d hs em)"

text \<open>
  \<^verbatim>\<open>removeAllListeners(event?)\<close> tests \<^verbatim>\<open>if (event)\<close>: an omitted event and the empty
  string both clear every set.
\<close>

definition removeAllListeners :: "ename option \<Rightarrow> 'p EventEmitter \<Rightarrow> 'p EventEmitter" where
  "removeAllListeners evo em =
     (case evo of
        Some ev \<Rightarrow>
          if ev \<noteq> [] then em\<lparr>handlers := (handlers em)(ev := None)\<rparr>
          else em\<lparr>handlers := Map.empty\<rparr>
      | None \<Rightarrow> em\<lparr>handlers := Map.empty\<rparr>)"

definition listenerCount :: "ename \<Rightarrow> 'p EventEmitter \<Rightarrow> nat" where
  "listenerCount ev em = (case handlers em ev of None \<Rightarrow> 0 | Some hs \<Rightarrow> length hs)"


text \<open>
  A handler set that the operations above can build: no entry twice, and every closure of
  \<^verbatim>\<open>once\<close> in it was created by this emitter.
\<close>

fun created_before :: "nat \<Rightarrow> handler \<Rightarrow> bool" where
  "created_before n (UserFn f) = True"
| "created_before n (OnceFn k e f) = (k < n)"

definition set_ok :: "'p EventEmitter \<Rightarrow> ename \<Rightarrow> bool" where
  "set_ok em ev =
     (distinct (handlers_of em ev) \<and>
      list_all (created_before (closures em)) (handlers_of em ev))"

section \<open>The transport (core/websocket.ts)\<close>

text \<open>
  \<^verbatim>\<open>WebSocketManager\<close> is event driven: every method and every callback runs to
  completion on one thread. The model is a record of the object's fields, extended with
  the parts of its environment that it acts on (the sockets it constructed, the timers it
  set, the promises it returned, the notifications it published), and one function per
  method or callback, each taking the record and returning it updated.

  Payloads that the core only passes on (query results, capability snapshots, the fields
  of hardware events) are kept as their JSON text.
\<close>

type_synonym json = string

datatype ConnectionState = disconnected | connecting | connected | reconnecting

datatype ReadyState = CONNECTING | OPEN | CLOSING | CLOSED

datatype Query = q_status | q_capabilities | q_config | q_rfid_tags

fun query_name :: "Query \<Rightarrow> string" where
  "query_name q_status = ''status''"
| "query_name q_capabilities = ''capabilities''"
| "query_name q_config = ''config''"
| "query_name q_rfid_tags = ''rfid_tags''"

datatype ClientMessage =
    trigger_scan
  | set_symbologies "string list"
  | start_rfid_inventory "json option"
  | stop_rfid_inventory
  | query string Query
  | ping

datatype Timestamp = ts_text string | ts_date string

datatype EventKind = scan | rfid

record EdgeEvent =
  ev_type :: EventKind
  ev_timestamp :: Timestamp
  ev_fields :: json

record ResponseData =
  rd_query :: Query
  rd_result :: json

datatype ServerMessage =
    msg_event EdgeEvent
  | msg_capabilities json
  | msg_response_ok string ResponseData
  | msg_response_fail string string
  | msg_error string "string option"
  | msg_pong

text \<open>
  The text of an inbound frame, after \<^verbatim>\<open>JSON.parse(event.data) as ServerMessage\<close>:
  either \<^verbatim>\<open>JSON.parse\<close> throws, or the value is a frame of the declared type.
\<close>

datatype MessageData = unparseable | frame ServerMessage

datatype WSManagerEvent =
    ev_message ServerMessage
  | ev_open
  | ev_close
  | ev_error string
  | ev_statechange ConnectionState

record WSManagerOptions =
  reconnect :: bool
  reconnectDelay :: nat
  maxReconnectDelay :: nat
  pingInterval :: nat

definition DEFAULT_WS_OPTIONS :: WSManagerOptions where
  "DEFAULT_WS_OPTIONS =
     \<lparr>reconnect = True, reconnectDelay = 1000, maxReconnectDelay = 30000, pingInterval = 30000\<rparr>"

text \<open>A promise is pending (\<open>None\<close>) or settled; \<open>Resolved None\<close> is \<^verbatim>\<open>resolve()\<close>.\<close>

datatype Outcome = Resolved "json option" | Rejected string

text \<open>
  The callbacks this class hands to \<^verbatim>\<open>setTimeout\<close> and \<^verbatim>\<open>setInterval\<close>: the expiry
  of a request (with the id, query and promise its closure holds), the reconnect retry and
  the keepalive tick.
\<close>

datatype TimerCallback = request_timeout string Query nat | reconnect_cb | ping_cb

record Timer =
  callback :: TimerCallback
  delay :: nat
  active :: bool

text \<open>
  A pending request holds the \<^verbatim>\<open>resolve\<close>/\<^verbatim>\<open>reject\<close> pair of one promise and the
  handle of its expiry timer.
\<close>

record PendingRequest =
  settles :: nat
  timeout :: nat

text \<open>
  A socket, as far as this class uses it: its \<^verbatim>\<open>readyState\<close>, the two listeners that
  \<^verbatim>\<open>connect\<close> adds with \<^verbatim>\<open>{ once: true }\<close> (each holding the promise of that
  \<^verbatim>\<open>connect\<close> call) and the frames written to it. The listeners for message, close
  and error that \<^verbatim>\<open>connect\<close> binds to the manager stay on every socket it constructs.
\<close>

record WebSocket =
  ws_url :: string
  readyState :: ReadyState
  onOpen :: "nat option"
  onError :: "nat option"
  sent :: "ClientMessage list"

text \<open>
  The fields of the class come first. Then the environment: \<open>sockets\<close>, \<open>timers\<close>
  and \<open>promises\<close> hold every socket constructed, timer set and promise created so far,
  a socket, timer or promise being named by its position; \<open>ctor_error\<close> is the error
  that \<^verbatim>\<open>new WebSocket(this.url)\<close> throws, if it throws (it does for a malformed URL);
  \<open>published\<close> lists the calls of the inherited \<^verbatim>\<open>emit\<close> in order, which is what
  subscribers are told; \<open>console\<close> lists the lines of \<^verbatim>\<open>console.error\<close>.
  The test \<^verbatim>\<open>if (this.reconnectTimer)\<close> is a test for \<open>None\<close>: a timer handle is
  never zero.
\<close>

record WebSocketManager =
  ws :: "nat option"
  url :: string
  options :: WSManagerOptions
  state :: ConnectionState
  reconnectAttempts :: nat
  reconnectTimer :: "nat option"
  pingTimer :: "nat option"
  pendingRequests :: "(string \<times> PendingRequest) list"
  intentionalClose :: bool
  sockets :: "WebSocket list"
  ctor_error :: "string option"
  timers :: "Timer list"
  promises :: "Outcome option list"
  published :: "WSManagerEvent list"
  console :: "string list"

definition new_WebSocketManager :: "string \<Rightarrow> string option \<Rightarrow> WSManagerOptions \<Rightarrow> WebSocketManager" where
  "new_WebSocketManager u ce opts =
     \<lparr>ws = None, url = u, options = opts, state = disconnected, reconnectAttempts = 0,
      reconnectTimer = None, pingTimer = None, pendingRequests = [], intentionalClose = False,
      sockets = [], ctor_error = ce, timers = [], promises = [], published = [], console = []\<rparr>"

subsection \<open>Promises and timers\<close>

definition new_promise :: "WebSocketManager \<Rightarrow> nat \<times> WebSocketManager" where
  "new_promise m = (length (promises m), m\<lparr>promises := promises m @ [None]\<rparr>)"

text \<open>Settling a promise that is already settled has no effect.\<close>

definition settle_in :: "nat \<Rightarrow> Outcome \<Rightarrow> Outcome option list \<Rightarrow> Outcome option list" where
  "settle_in p out ps = (if p < length ps \<and> ps ! p = None then ps[p := Some out] else ps)"

definition settle :: "nat \<Rightarrow> Outcome \<Rightarrow> WebSocketManager \<Rightarrow> WebSocketManager" where
  "settle p out m = m\<lparr>promises := settle_in p out (promises m)\<rparr>"

definition setTimeout :: "TimerCallback \<Rightarrow> nat \<Rightarrow> WebSocketManager \<Rightarrow> nat \<times> WebSocketManager" where
  "setTimeout cb d m =
     (length (timers m), m\<lparr>timers := timers m @ [\<lparr>callback = cb, delay = d, active = True\<rparr>]\<rparr>)"

text \<open>Clearing a handle that names no timer has no effect (so does the list update).\<close>

definition cancel :: "nat \<Rightarrow> Timer list \<Rightarrow> Timer list" where
  "cancel h ts = ts[h := (ts ! h)\<lparr>active := False\<rparr>]"

definition clearTimeout :: "nat \<Rightarrow> WebSocketManager \<Rightarrow> WebSocketManager" where
  "clearTimeout h m = m\<lparr>timers := cancel h (timers m)\<rparr>"

subsection \<open>The methods\<close>

definition ws_emit :: "WSManagerEvent \<Rightarrow> WebSocketManager \<Rightarrow> WebSocketManager" where
  "ws_emit e m = m\<lparr>published := published m @ [e]\<rparr>"

definition setState :: "ConnectionState \<Rightarrow> WebSocketManager \<Rightarrow> WebSocketManager" where
  "setState s m = (if state m \<noteq> s then ws_emit (ev_statechange s) (m\<lparr>state := s\<rparr>) else m)"

definition isConnected :: "WebSocketManager \<Rightarrow> bool" where
  "isConnected m = (state m = connected)"

definition readyState_of :: "WebSocketManager \<Rightarrow> nat \<Rightarrow> ReadyState option" where
  "readyState_of m i = (if i < length (sockets m) then Some (readyState (sockets m ! i)) else None)"

definition update_socket :: "nat \<Rightarrow> (WebSocket \<Rightarrow> WebSocket) \<Rightarrow> WebSocketManager \<Rightarrow> WebSocketManager" where
  "update_socket i f m = m\<lparr>sockets := (sockets m)[i := f (sockets m ! i)]\<rparr>"

definition stopPing :: "WebSocketManager \<Rightarrow> WebSocketManager" where
  "stopPing m =
     (case pingTimer m of
        None \<Rightarrow> m
      | Some h \<Rightarrow> (clearTimeout h m)\<lparr>pingTimer := None\<rparr>)"

definition startPing :: "WebSocketManager \<Rightarrow> WebSocketManager" where
  "startPing m =
     (let m1 = stopPing m;
          (h, m2) = setTimeout ping_cb (pingInterval (options m1)) m1
      in m2\<lparr>pingTimer := Some h\<rparr>)"

text \<open>\<^verbatim>\<open>send\<close> throws unless there is a socket and it is open.\<close>

definition send :: "ClientMessage \<Rightarrow> WebSocketManager \<Rightarrow> string + WebSocketManager" where
  "send msg m =
     (case ws m of
        None \<Rightarrow> Inl ''WebSocket is not connected''
      | Some i \<Rightarrow>
          if readyState_of m i \<noteq> Some OPEN then Inl ''WebSocket is not connected''
          else Inr (update_socket i (\<lambda>s. s\<lparr>sent := sent s @ [msg]\<rparr>) m))"

definition command :: "ClientMessage \<Rightarrow> WebSocketManager \<Rightarrow> string + WebSocketManager" where
  "command msg m = send msg m"

text \<open>
  \<^verbatim>\<open>request\<close>. The id is what \<^verbatim>\<open>generateId\<close> returned (a time stamp and a random
  suffix), so it is an input here. The result is the promise returned and the new state.
\<close>

definition request :: "string \<Rightarrow> Query \<Rightarrow> nat \<Rightarrow> WebSocketManager \<Rightarrow> nat \<times> WebSocketManager" where
  "request ident q timeoutMs m =
     (let (p, m0) = new_promise m;
          (h, m1) = setTimeout (request_timeout ident q p) timeoutMs m0;
          m2 = m1\<lparr>pendingRequests :=
                   AList.update ident \<lparr>settles = p, timeout = h\<rparr> (pendingRequests m1)\<rparr>
      in case send (query ident q) m2 of
           Inr m3 \<Rightarrow> (p, m3)
         | Inl err \<Rightarrow>
             (p, settle p (Rejected err)
                   ((clearTimeout h m2)\<lparr>pendingRequests := AList.delete ident (pendingRequests m2)\<rparr>)))"

text \<open>
  \<^verbatim>\<open>cleanup\<close>. Closing a socket that is open or connecting starts its closing
  handshake (\<open>CLOSING\<close>); its close event comes later, from the environment.
\<close>

definition reject_pending :: "WebSocketManager \<Rightarrow> string \<times> PendingRequest \<Rightarrow> WebSocketManager" where
  "reject_pending m e =
     settle (settles (snd e)) (Rejected ''WebSocket disconnected'') (clearTimeout (timeout (snd e)) m)"

definition cleanup :: "WebSocketManager \<Rightarrow> WebSocketManager" where
  "cleanup m =
     (let m1 = stopPing m;
          m2 = (case reconnectTimer m1 of
                  None \<Rightarrow> m1
                | Some h \<Rightarrow> (clearTimeout h m1)\<lparr>reconnectTimer := None\<rparr>);
          m3 = foldl reject_pending m2 (pendingRequests m2);
          m4 = m3\<lparr>pendingRequests := []\<rparr>
      in case ws m4 of
           None \<Rightarrow> m4
         | Some i \<Rightarrow>
             (let m5 = m4\<lparr>ws := None\<rparr>
              in if readyState_of m5 i = Some OPEN \<or> readyState_of m5 i = Some CONNECTING
                 then update_socket i (\<lambda>s. s\<lparr>readyState := CLOSING\<rparr>) m5
                 else m5))"

text \<open>\<^verbatim>\<open>connect\<close>. The result is the promise returned and the new state.\<close>

definition connect :: "WebSocketManager \<Rightarrow> nat \<times> WebSocketManager" where
  "connect m =
     (let (p, m0) = new_promise m
      in if state m0 = connected \<or> state m0 = connecting then (p, settle p (Resolved None) m0)
         else
           (let m1 = m0\<lparr>intentionalClose := False\<rparr>;
                m2 = setState connecting m1
            in case ctor_error m2 of
                 Some err \<Rightarrow> (p, settle p (Rejected err) (setState disconnected m2))
               | None \<Rightarrow>
                   (p, m2\<lparr>ws := Some (length (sockets m2)),
                          sockets := sockets m2 @
                            [\<lparr>ws_url = url m2, readyState = CONNECTING,
                              onOpen = Some p, onError = Some p, sent = []\<rparr>]\<rparr>)))"

definition disconnect :: "WebSocketManager \<Rightarrow> WebSocketManager" where
  "disconnect m = ws_emit ev_close (setState disconnected (cleanup (m\<lparr>intentionalClose := True\<rparr>)))"

subsection \<open>The callbacks\<close>

text \<open>
  The closures \<^verbatim>\<open>onOpen\<close> and \<^verbatim>\<open>onError\<close> of the \<^verbatim>\<open>connect\<close> call that returned
  promise \<open>p\<close>. Each removes the other from \<^verbatim>\<open>this.ws\<close>, whatever socket that is by
  now; only the socket of the same \<^verbatim>\<open>connect\<close> call carries it.
\<close>

definition onOpen_cb :: "nat \<Rightarrow> WebSocketManager \<Rightarrow> WebSocketManager" where
  "onOpen_cb p m =
     (let m1 = (case ws m of
                  None \<Rightarrow> m
                | Some j \<Rightarrow> update_socket j (\<lambda>s. if onError s = Some p then s\<lparr>onError := None\<rparr> else s) m);
          m2 = m1\<lparr>reconnectAttempts := 0\<rparr>;
          m3 = setState connected m2;
          m4 = startPing m3;
          m5 = ws_emit ev_open m4
      in settle p (Resolved None) m5)"

definition onError_cb :: "nat \<Rightarrow> WebSocketManager \<Rightarrow> WebSocketManager" where
  "onError_cb p m =
     (let m1 = (case ws m of
                  None \<Rightarrow> m
                | Some j \<Rightarrow> update_socket j (\<lambda>s. if onOpen s = Some p then s\<lparr>onOpen := None\<rparr> else s) m)
      in settle p (Rejected ''WebSocket connection failed'') m1)"

definition forward :: "ServerMessage \<Rightarrow> WebSocketManager \<Rightarrow> WebSocketManager" where
  "forward msg m = (if msg = msg_pong then m else ws_emit (ev_message msg) m)"

definition handleMessage :: "MessageData \<Rightarrow> WebSocketManager \<Rightarrow> WebSocketManager" where
  "handleMessage d m =
     (case d of
        unparseable \<Rightarrow> m\<lparr>console := console m @ [''Failed to parse WebSocket message:'']\<rparr>
      | frame msg \<Rightarrow>
          (case msg of
             msg_response_ok ident rd \<Rightarrow>
               (case map_of (pendingRequests m) ident of
                  Some pending \<Rightarrow>
                    settle (settles pending) (Resolved (Some (rd_result rd)))
                      ((clearTimeout (timeout pending) m)
                         \<lparr>pendingRequests := AList.delete ident (pendingRequests m)\<rparr>)
                | None \<Rightarrow> forward msg m)
           | msg_response_fail ident err \<Rightarrow>
               (case map_of (pendingRequests m) ident of
                  Some pending \<Rightarrow>
                    settle (settles pending) (Rejected err)
                      ((clearTimeout (timeout pending) m)
                         \<lparr>pendingRequests := AList.delete ident (pendingRequests m)\<rparr>)
                | None \<Rightarrow> forward msg m)
           | _ \<Rightarrow> forward msg m))"

definition backoff :: "WSManagerOptions \<Rightarrow> nat \<Rightarrow> nat" where
  "backoff opts attempts = min (reconnectDelay opts * 2 ^ attempts) (maxReconnectDelay opts)"

definition scheduleReconnect :: "WebSocketManager \<Rightarrow> WebSocketManager" where
  "scheduleReconnect m =
     (if reconnectTimer m \<noteq> None then m
      else
        (let m1 = setState reconnecting m;
             (h, m2) = setTimeout reconnect_cb (backoff (options m1) (reconnectAttempts m1)) m1
         in m2\<lparr>reconnectTimer := Some h\<rparr>))"

definition handleClose :: "WebSocketManager \<Rightarrow> WebSocketManager" where
  "handleClose m =
     (let m1 = cleanup m
      in if intentionalClose m1 then setState disconnected m1
         else
           (let m2 = ws_emit ev_close m1
            in if reconnect (options m2) then scheduleReconnect m2
               else setState disconnected m2))"

definition handleError :: "WebSocketManager \<Rightarrow> WebSocketManager" where
  "handleError m = ws_emit (ev_error ''WebSocket error'') m"

text \<open>
  What a timer runs when it fires. The retry awaits \<^verbatim>\<open>connect()\<close> and swallows its
  rejection; the keepalive tick swallows a failure of \<^verbatim>\<open>send\<close>.
\<close>

fun run_callback :: "TimerCallback \<Rightarrow> WebSocketManager \<Rightarrow> WebSocketManager" where
  "run_callback (request_timeout ident q p) m =
     settle p (Rejected (''Request timeout: '' @ query_name q))
       (m\<lparr>pendingRequests := AList.delete ident (pendingRequests m)\<rparr>)"
| "run_callback reconnect_cb m =
     snd (connect (m\<lparr>reconnectTimer := None, reconnectAttempts := Suc (reconnectAttempts m)\<rparr>))"
| "run_callback ping_cb m =
     (case ws m of
        None \<Rightarrow> m
      | Some i \<Rightarrow>
          if readyState_of m i = Some OPEN
          then (case send ping m of Inl err \<Rightarrow> m | Inr m1 \<Rightarrow> m1)
          else m)"

subsection \<open>The environment: socket events and timers\<close>

text \<open>
  The browser delivers an open event to a connecting socket, which is then open, and a
  close event once, to a socket that is not yet closed. A listener added with
  \<^verbatim>\<open>{ once: true }\<close> is removed before it runs; the listeners of one event run in the
  order in which they were added. A timer set with \<^verbatim>\<open>setTimeout\<close> fires at most once and
  not after \<^verbatim>\<open>clearTimeout\<close>; the keepalive interval fires until cleared.
\<close>

datatype Event =
    sock_open nat
  | sock_error nat
  | sock_close nat
  | sock_message nat MessageData
  | timer_fire nat

fun fire :: "Event \<Rightarrow> WebSocketManager \<Rightarrow> WebSocketManager" where
  "fire (sock_open i) m =
     (if readyState_of m i = Some CONNECTING
      then (let m1 = update_socket i (\<lambda>s. s\<lparr>readyState := OPEN\<rparr>) m
            in case onOpen (sockets m1 ! i) of
                 None \<Rightarrow> m1
               | Some p \<Rightarrow> onOpen_cb p (update_socket i (\<lambda>s. s\<lparr>onOpen := None\<rparr>) m1))
      else m)"
| "fire (sock_error i) m =
     (if i < length (sockets m)
      then (case onError (sockets m ! i) of
              None \<Rightarrow> handleError m
            | Some p \<Rightarrow> handleError (onError_cb p (update_socket i (\<lambda>s. s\<lparr>onError := None\<rparr>) m)))
      else m)"
| "fire (sock_close i) m =
     (if i < length (sockets m) \<and> readyState_of m i \<noteq> Some CLOSED
      then handleClose (update_socket i (\<lambda>s. s\<lparr>readyState := CLOSED\<rparr>) m)
      else m)"
| "fire (sock_message i d) m =
     (if readyState_of m i = Some OPEN \<or> readyState_of m i = Some CLOSING
      then handleMessage d m else m)"
| "fire (timer_fire h) m =
     (if h < length (timers m) \<and> active (timers m ! h)
      then (case callback (timers m ! h) of
              ping_cb \<Rightarrow> run_callback ping_cb m
            | cb \<Rightarrow> run_callback cb (clearTimeout h m))
      else m)"

text \<open>What can happen to a transport: a call of one of its methods, or an event.\<close>

datatype Op =
    op_connect
  | op_disconnect
  | op_send ClientMessage
  | op_request string Query nat
  | op_event Event

fun step :: "Op \<Rightarrow> WebSocketManager \<Rightarrow> WebSocketManager" where
  "step op_connect m = snd (connect m)"
| "step op_disconnect m = disconnect m"
| "step (op_send msg) m = (case send msg m of Inl err \<Rightarrow> m | Inr m1 \<Rightarrow> m1)"
| "step (op_request ident q t) m = snd (request ident q t m)"
| "step (op_event ev) m = fire ev m"

definition run :: "Op list \<Rightarrow> WebSocketManager \<Rightarrow> WebSocketManager" where
  "run ops m = foldl (\<lambda>m op. step op m) m ops"





section \<open>The facade (core/client.ts)\<close>

text \<open>
  \<^verbatim>\<open>CleverenceEdge\<close> owns a transport and the capability cache (\<^verbatim>\<open>_capabilities\<close>, read
  by the getter \<^verbatim>\<open>capabilities\<close>). Its environment: \<open>emitted\<close> lists the calls of its
  inherited \<^verbatim>\<open>emit\<close>; \<open>awaiting\<close> holds the promises of the capabilities queries issued
  by the handler of the transport's open notification, each with the \<^verbatim>\<open>then\<close> callback
  that stores the result; \<open>autoconnect_timer\<close> says whether the zero-delay timer set by
  the constructor is still to fire.
\<close>

record EdgeOptions =
  opt_url :: string
  autoConnect :: bool
  opt_reconnectDelay :: nat
  opt_maxReconnectDelay :: nat
  opt_pingInterval :: nat

definition DEFAULT_OPTIONS :: EdgeOptions where
  "DEFAULT_OPTIONS =
     \<lparr>opt_url = ''ws://localhost:8585'', autoConnect = True, opt_reconnectDelay = 1000,
      opt_maxReconnectDelay = 30000, opt_pingInterval = 30000\<rparr>"

datatype CleverenceEdgeEvent =
    e_scan EdgeEvent
  | e_rfid EdgeEvent
  | e_connect
  | e_disconnect
  | e_reconnecting
  | e_error string
  | e_capabilities "json option"

record CleverenceEdge =
  edge_ws :: WebSocketManager
  edge_options :: EdgeOptions
  capabilities :: "json option"
  awaiting :: "nat list"
  emitted :: "CleverenceEdgeEvent list"
  autoconnect_timer :: bool

text \<open>The constructor, given the options after their merge with \<^verbatim>\<open>DEFAULT_OPTIONS\<close>.\<close>

definition new_CleverenceEdge :: "EdgeOptions \<Rightarrow> string option \<Rightarrow> CleverenceEdge" where
  "new_CleverenceEdge opts ce =
     \<lparr>edge_ws = new_WebSocketManager (opt_url opts) ce
        \<lparr>reconnect = True, reconnectDelay = opt_reconnectDelay opts,
         maxReconnectDelay = opt_maxReconnectDelay opts, pingInterval = opt_pingInterval opts\<rparr>,
      edge_options = opts, capabilities = None, awaiting = [], emitted = [],
      autoconnect_timer = autoConnect opts\<rparr>"

definition edge_emit :: "CleverenceEdgeEvent \<Rightarrow> CleverenceEdge \<Rightarrow> CleverenceEdge" where
  "edge_emit ev e = e\<lparr>emitted := emitted e @ [ev]\<rparr>"

definition ensureConnected :: "CleverenceEdge \<Rightarrow> string + unit" where
  "ensureConnected e =
     (if \<not> isConnected (edge_ws e) then Inl ''Not connected to Edge service. Call connect() first.''
      else Inr ())"

text \<open>
  The four commands and the four queries. Each is an \<^verbatim>\<open>async\<close> method, so what it throws
  is the rejection of the promise it returns: the result is that error, or the value.
  A query returns the promise of \<^verbatim>\<open>request\<close> (timeout 10000 by default); the id is the
  one \<^verbatim>\<open>generateId\<close> yields in that call.
\<close>

definition edge_command :: "ClientMessage \<Rightarrow> CleverenceEdge \<Rightarrow> (string + unit) \<times> CleverenceEdge" where
  "edge_command msg e =
     (case ensureConnected e of
        Inl err \<Rightarrow> (Inl err, e)
      | Inr u \<Rightarrow>
          (case command msg (edge_ws e) of
             Inl err \<Rightarrow> (Inl err, e)
           | Inr m \<Rightarrow> (Inr (), e\<lparr>edge_ws := m\<rparr>)))"

definition edge_query :: "string \<Rightarrow> Query \<Rightarrow> CleverenceEdge \<Rightarrow> (string + nat) \<times> CleverenceEdge" where
  "edge_query ident q e =
     (case ensureConnected e of
        Inl err \<Rightarrow> (Inl err, e)
      | Inr u \<Rightarrow>
          (case request ident q 10000 (edge_ws e) of
             (p, m) \<Rightarrow> (Inr p, e\<lparr>edge_ws := m\<rparr>)))"

definition triggerScan :: "CleverenceEdge \<Rightarrow> (string + unit) \<times> CleverenceEdge" where
  "triggerScan e = edge_command trigger_scan e"

definition setSymbologies :: "string list \<Rightarrow> CleverenceEdge \<Rightarrow> (string + unit) \<times> CleverenceEdge" where
  "setSymbologies symbologies e = edge_command (set_symbologies symbologies) e"

definition startRfidInventory :: "json option \<Rightarrow> CleverenceEdge \<Rightarrow> (string + unit) \<times> CleverenceEdge" where
  "startRfidInventory opts e = edge_command (start_rfid_inventory opts) e"

definition stopRfidInventory :: "CleverenceEdge \<Rightarrow> (string + unit) \<times> CleverenceEdge" where
  "stopRfidInventory e = edge_command stop_rfid_inventory e"

definition getStatus :: "string \<Rightarrow> CleverenceEdge \<Rightarrow> (string + nat) \<times> CleverenceEdge" where
  "getStatus ident e = edge_query ident q_status e"

definition getCapabilities :: "string \<Rightarrow> CleverenceEdge \<Rightarrow> (string + nat) \<times> CleverenceEdge" where
  "getCapabilities ident e = edge_query ident q_capabilities e"

definition getConfig :: "string \<Rightarrow> CleverenceEdge \<Rightarrow> (string + nat) \<times> CleverenceEdge" where
  "getConfig ident e = edge_query ident q_config e"

definition getRfidTags :: "string \<Rightarrow> CleverenceEdge \<Rightarrow> (string + nat) \<times> CleverenceEdge" where
  "getRfidTags ident e = edge_query ident q_rfid_tags e"

subsection \<open>The handlers of the transport's notifications\<close>

definition handleEvent :: "EdgeEvent \<Rightarrow> CleverenceEdge \<Rightarrow> CleverenceEdge" where
  "handleEvent ev e =
     (let parsedEvent =
            ev\<lparr>ev_timestamp := (case ev_timestamp ev of ts_text t \<Rightarrow> ts_date t | ts_date t \<Rightarrow> ts_date t)\<rparr>
      in case ev_type ev of
           scan \<Rightarrow> edge_emit (e_scan parsedEvent) e
         | rfid \<Rightarrow> edge_emit (e_rfid parsedEvent) e)"

definition handleServerMessage :: "ServerMessage \<Rightarrow> CleverenceEdge \<Rightarrow> CleverenceEdge" where
  "handleServerMessage msg e =
     (case msg of
        msg_event ev \<Rightarrow> handleEvent ev e
      | msg_capabilities d \<Rightarrow> edge_emit (e_capabilities (Some d)) (e\<lparr>capabilities := Some d\<rparr>)
      | msg_error message code \<Rightarrow> edge_emit (e_error message) e
      | _ \<Rightarrow> e)"

text \<open>
  The five handlers that \<^verbatim>\<open>setupWebSocketHandlers\<close> subscribes, by notification. The
  handler of open calls \<^verbatim>\<open>getCapabilities\<close> and hangs its \<^verbatim>\<open>then\<close> callback on the
  promise; a rejection of that promise is swallowed.
\<close>

definition on_ws :: "string \<Rightarrow> WSManagerEvent \<Rightarrow> CleverenceEdge \<Rightarrow> CleverenceEdge" where
  "on_ws ident ev e =
     (case ev of
        ev_open \<Rightarrow>
          (let e1 = edge_emit e_connect e
           in case getCapabilities ident e1 of
                (Inl err, e2) \<Rightarrow> e2
              | (Inr p, e2) \<Rightarrow> e2\<lparr>awaiting := awaiting e2 @ [p]\<rparr>)
      | ev_close \<Rightarrow> edge_emit e_disconnect e
      | ev_error err \<Rightarrow> edge_emit (e_error err) e
      | ev_statechange s \<Rightarrow> (if s = reconnecting then edge_emit e_reconnecting e else e)
      | ev_message msg \<Rightarrow> handleServerMessage msg e)"

text \<open>
  The \<^verbatim>\<open>then\<close> callback of an awaited promise runs once the promise has been resolved:
  it stores the value in the cache and republishes it. \<open>old\<close> is the promise table
  when the current call or event began.
\<close>

definition newly_settled :: "Outcome option list \<Rightarrow> Outcome option list \<Rightarrow> nat \<Rightarrow> bool" where
  "newly_settled old new p =
     ((p \<ge> length old \<or> old ! p = None) \<and> p < length new \<and> new ! p \<noteq> None)"

definition run_then :: "Outcome option list \<Rightarrow> CleverenceEdge \<Rightarrow> nat \<Rightarrow> CleverenceEdge" where
  "run_then old e p =
     (if newly_settled old (promises (edge_ws e)) p
      then (case promises (edge_ws e) ! p of
              Some (Resolved caps) \<Rightarrow>
                edge_emit (e_capabilities caps) (e\<lparr>capabilities := caps, awaiting := removeAll p (awaiting e)\<rparr>)
            | _ \<Rightarrow> e\<lparr>awaiting := removeAll p (awaiting e)\<rparr>)
      else e)"

text \<open>
  After the transport has run a method or a callback: its new notifications reach the
  handlers above in order, then the callbacks of the promises settled meanwhile run.
\<close>

definition deliver :: "string \<Rightarrow> WebSocketManager \<Rightarrow> CleverenceEdge \<Rightarrow> CleverenceEdge" where
  "deliver ident old e =
     (let e1 = foldl (\<lambda>e ev. on_ws ident ev e) e
                 (drop (length (published old)) (published (edge_ws e)))
      in foldl (run_then (promises old)) e1 (awaiting e1))"

definition edge_connect :: "string \<Rightarrow> CleverenceEdge \<Rightarrow> nat \<times> CleverenceEdge" where
  "edge_connect ident e =
     (case connect (edge_ws e) of
        (p, m) \<Rightarrow> (p, deliver ident (edge_ws e) (e\<lparr>edge_ws := m\<rparr>)))"

definition edge_disconnect :: "string \<Rightarrow> CleverenceEdge \<Rightarrow> CleverenceEdge" where
  "edge_disconnect ident e = deliver ident (edge_ws e) (e\<lparr>edge_ws := disconnect (edge_ws e)\<rparr>)"

text \<open>
  What can happen to a facade: a call of a public method, an event of its transport's
  socket or timers, or the constructor's zero-delay timer (which calls \<^verbatim>\<open>connect\<close>).
\<close>

datatype EdgeOp =
    call_connect
  | call_disconnect
  | call_command ClientMessage
  | call_query Query
  | transport_event Event
  | autoconnect_fire

fun edge_step :: "string \<Rightarrow> EdgeOp \<Rightarrow> CleverenceEdge \<Rightarrow> CleverenceEdge" where
  "edge_step ident call_connect e = snd (edge_connect ident e)"
| "edge_step ident call_disconnect e = edge_disconnect ident e"
| "edge_step ident (call_command msg) e = snd (edge_command msg e)"
| "edge_step ident (call_query q) e = snd (edge_query ident q e)"
| "edge_step ident (transport_event ev) e =
     deliver ident (edge_ws e) (e\<lparr>edge_ws := fire ev (edge_ws e)\<rparr>)"
| "edge_step ident autoconnect_fire e =
     (if autoconnect_timer e then snd (edge_connect ident (e\<lparr>autoconnect_timer := False\<rparr>)) else e)"

subsection \<open>What cleanup does to the timers, promises and sockets\<close>

text \<open>
  These functions are not in the source: they name the effect of \<^verbatim>\<open>cleanup\<close> on each
  list of the environment, so that it can be stated as one equation (lemma
  \<open>cleanup_eq\<close> below).
\<close>

definition cancel_opt :: "nat option \<Rightarrow> Timer list \<Rightarrow> Timer list" where
  "cancel_opt ho ts = (case ho of None \<Rightarrow> ts | Some h \<Rightarrow> cancel h ts)"

definition cancel_all :: "nat list \<Rightarrow> Timer list \<Rightarrow> Timer list" where
  "cancel_all hs ts = foldl (\<lambda>ts h. cancel h ts) ts hs"

definition reject_all :: "string \<Rightarrow> nat list \<Rightarrow> Outcome option list \<Rightarrow> Outcome option list" where
  "reject_all err qs ps = foldl (\<lambda>ps q. settle_in q (Rejected err) ps) ps qs"

definition close_current :: "nat option \<Rightarrow> WebSocket list \<Rightarrow> WebSocket list" where
  "close_current w socks =
     (case w of
        None \<Rightarrow> socks
      | Some i \<Rightarrow>
          if i < length socks \<and> (readyState (socks ! i) = OPEN \<or> readyState (socks ! i) = CONNECTING)
          then socks[i := (socks ! i)\<lparr>readyState := CLOSING\<rparr>] else socks)"

subsection \<open>Two properties of the states the transport reaches\<close>


text \<open>
  The invariant behind it, over the promise table, the pending table, the timers and the
  sockets: the pending entries hold distinct, existing, unsettled promises; a running
  expiry timer holds an existing promise, which only the entry under the timer's own id
  may hold; and the promise held by a socket's open or error listener exists and is held
  by no pending entry.
\<close>

definition request_timer_ok :: "Outcome option list \<Rightarrow> (string \<times> PendingRequest) list \<Rightarrow> Timer \<Rightarrow> bool" where
  "request_timer_ok ps pend t =
     (case callback t of
        request_timeout ident q p \<Rightarrow>
          active t \<longrightarrow>
            p < length ps \<and> list_all (\<lambda>e. settles (snd e) = p \<longrightarrow> fst e = ident) pend
      | reconnect_cb \<Rightarrow> True
      | ping_cb \<Rightarrow> True)"

definition listener_ok :: "Outcome option list \<Rightarrow> (string \<times> PendingRequest) list \<Rightarrow> nat option \<Rightarrow> bool" where
  "listener_ok ps pend l =
     (case l of
        None \<Rightarrow> True
      | Some p \<Rightarrow> p < length ps \<and> list_all (\<lambda>e. settles (snd e) \<noteq> p) pend)"

definition wf_parts :: "Outcome option list \<Rightarrow> (string \<times> PendingRequest) list \<Rightarrow> Timer list \<Rightarrow> WebSocket list \<Rightarrow> bool" where
  "wf_parts ps pend ts socks =
     (list_all (\<lambda>e. settles (snd e) < length ps \<and> ps ! settles (snd e) = None) pend \<and>
      distinct (map (\<lambda>e. settles (snd e)) pend) \<and>
      list_all (request_timer_ok ps pend) ts \<and>
      list_all (\<lambda>s. listener_ok ps pend (onOpen s) \<and> listener_ok ps pend (onError s)) socks)"

definition wf_transport :: "WebSocketManager \<Rightarrow> bool" where
  "wf_transport m = wf_parts (promises m) (pendingRequests m) (timers m) (sockets m)"

text \<open>
  No reconnect timer is running; and: the only reconnect timer that may be running is the
  one whose handle is in \<^verbatim>\<open>reconnectTimer\<close>. (\<^verbatim>\<open>scheduleReconnect\<close> sets a timer only when
  that field is null, and the field is nulled only when the timer fires or is cleared.)
\<close>

definition no_retry_timer :: "Timer list \<Rightarrow> bool" where
  "no_retry_timer ts = list_all (\<lambda>t. callback t = reconnect_cb \<longrightarrow> \<not> active t) ts"

definition single_retry_timer :: "WebSocketManager \<Rightarrow> bool" where
  "single_retry_timer m = no_retry_timer (cancel_opt (reconnectTimer m) (timers m))"


text \<open>
  Two ways to compare the state before a step with the state after it: the notifications
  published by the step, and whether the step resolved promise \<open>p\<close> with value \<open>v\<close>.
\<close>

definition new_pubs :: "WebSocketManager \<Rightarrow> WebSocketManager \<Rightarrow> WSManagerEvent list" where
  "new_pubs m m1 = drop (length (published m)) (published m1)"

definition resolves :: "Outcome option list \<Rightarrow> Outcome option list \<Rightarrow> nat \<Rightarrow> json option \<Rightarrow> bool" where
  "resolves old new p v = (newly_settled old new p \<and> new ! p = Some (Resolved v))"

text \<open>
  The promises the facade awaits are promises of requests: each exists, and none is the
  promise of a \<^verbatim>\<open>connect\<close> call held by a socket's open listener.
\<close>

definition awaiting_ok :: "CleverenceEdge \<Rightarrow> bool" where
  "awaiting_ok e =
     list_all (\<lambda>p. p < length (promises (edge_ws e)) \<and>
                   list_all (\<lambda>s. onOpen s \<noteq> Some p) (sockets (edge_ws e)))
       (awaiting e)"

text \<open>
  From one state of the transport to a later one: the promise table has not shrunk, and
  the promise held by an open listener is one that an open listener held before, or a
  new one.
\<close>

definition grows :: "WebSocketManager \<Rightarrow> WebSocketManager \<Rightarrow> bool" where
  "grows m m1 =
     (length (promises m) \<le> length (promises m1) \<and>
      list_all (\<lambda>s. case onOpen s of
                        None \<Rightarrow> True
                      | Some p \<Rightarrow> length (promises m) \<le> p \<or>
                                  list_ex (\<lambda>s0. onOpen s0 = Some p) (sockets m))
        (sockets m1))"

text \<open>
  A run of the facade: each call or event with the id that \<^verbatim>\<open>generateId\<close> yields if a
  query is issued in it.
\<close>

definition edge_run :: "(string \<times> EdgeOp) list \<Rightarrow> CleverenceEdge \<Rightarrow> CleverenceEdge" where
  "edge_run ops e = foldl (\<lambda>e (ident, op). edge_step ident op e) e ops"

subsection \<open>Example states\<close>

definition m_init :: WebSocketManager where
  "m_init = new_WebSocketManager ''ws://localhost:8585'' None DEFAULT_WS_OPTIONS"

definition m_connecting :: WebSocketManager where
  "m_connecting = run [op_connect] m_init"

definition m_connected :: WebSocketManager where
  "m_connected = run [op_connect, op_event (sock_open 0)] m_init"

definition m_failed :: WebSocketManager where
  "m_failed = run [op_event (sock_error 0), op_event (sock_close 0)] m_connecting"

definition m_requesting :: WebSocketManager where
  "m_requesting = run [op_request ''a'' q_status 10000] m_connected"


definition edge_init :: CleverenceEdge where
  "edge_init = new_CleverenceEdge (DEFAULT_OPTIONS\<lparr>autoConnect := False\<rparr>) None"

definition edge_connected :: CleverenceEdge where
  "edge_connected =
     edge_step ''q1'' (transport_event (sock_open 0)) (edge_step ''q0'' call_connect edge_init)"

definition edge_cached :: CleverenceEdge where
  "edge_cached =
     edge_step ''q2''
       (transport_event (sock_message 0
          (frame (msg_response_ok ''q1'' \<lparr>rd_query = q_capabilities, rd_result = ''{zebra}''\<rparr>))))
       edge_connected"

subsection \<open>Properties of the notification primitive\<close>

lemma handlers_of_off:
  "handlers_of (off e h em) ev = (if e = ev then removeAll h (handlers_of em ev) else handlers_of em ev)"
  by (auto simp: off_def handlers_of_def split: option.splits)

lemma call_calls: "calls (snd (call thr h d em)) = calls em @ [(target h, d)]"
  by (cases h) (auto simp: off_def Let_def split: option.splits)

lemma call_console: "console_error (snd (call thr h d em)) = console_error em"
  by (cases h) (auto simp: off_def Let_def split: option.splits)

lemma call_threw: "fst (call thr h d em) = thr (target h) d"
  by (cases h) (auto simp: Let_def)

lemma call_closures: "closures (snd (call thr h d em)) = closures em"
  by (cases h) (auto simp: off_def Let_def split: option.splits)

lemma handlers_of_upd [simp]:
  "handlers_of (em\<lparr>calls := c\<rparr>) ev = handlers_of em ev"
  "handlers_of (em\<lparr>console_error := k\<rparr>) ev = handlers_of em ev"
  "handlers_of (em\<lparr>closures := n\<rparr>) ev = handlers_of em ev"
  by (simp_all add: handlers_of_def)

lemma call_handlers_of:
  "handlers_of (snd (call thr h d em)) ev =
     (case h of UserFn f \<Rightarrow> handlers_of em ev
      | OnceFn k e f \<Rightarrow> if e = ev then removeAll h (handlers_of em ev) else handlers_of em ev)"
  by (cases h) (simp_all add: Let_def handlers_of_off)

lemma call_keeps_others:
  "x \<noteq> h \<Longrightarrow> x \<in> set (handlers_of (snd (call thr h d em)) ev) \<longleftrightarrow> x \<in> set (handlers_of em ev)"
  by (auto simp: call_handlers_of split: handler.splits)

lemma forEach_logs:
  "distinct hs \<Longrightarrow> set hs \<subseteq> set (handlers_of em ev) \<Longrightarrow>
   calls (forEach thr ev d hs em) = calls em @ map (\<lambda>h. (target h, d)) hs \<and>
   console_error (forEach thr ev d hs em) =
     console_error em @ map (\<lambda>h. (ev, target h)) (filter (\<lambda>h. thr (target h) d) hs)"
proof (induction hs arbitrary: em)
  case Nil
  then show ?case by simp
next
  case (Cons h hs)
  obtain threw em1 where c: "call thr h d em = (threw, em1)" by (cases "call thr h d em")
  have t: "threw = thr (target h) d" using call_threw[of thr h d em] c by simp
  have e1: "em1 = snd (call thr h d em)" using c by simp
  let ?em2 = "if threw then em1\<lparr>console_error := console_error em1 @ [(ev, target h)]\<rparr> else em1"
  have sub: "set hs \<subseteq> set (handlers_of ?em2 ev)"
  proof
    fix x assume x: "x \<in> set hs"
    then have "x \<noteq> h" using Cons.prems(1) by auto
    moreover have "x \<in> set (handlers_of em ev)" using x Cons.prems(2) by auto
    ultimately have "x \<in> set (handlers_of em1 ev)" using call_keeps_others e1 by metis
    then show "x \<in> set (handlers_of ?em2 ev)" by (simp add: handlers_of_def)
  qed
  have d: "distinct hs" using Cons.prems(1) by simp
  have live: "h \<in> set (handlers_of em ev)" using Cons.prems(2) by simp
  have step: "forEach thr ev d (h # hs) em = forEach thr ev d hs ?em2"
    using live c by simp
  have c2: "calls ?em2 = calls em @ [(target h, d)]"
    using call_calls[of thr h d em] e1 by simp
  have k2: "console_error ?em2 = console_error em @ (if threw then [(ev, target h)] else [])"
    using call_console[of thr h d em] e1 by simp
  show ?case
    using Cons.IH[OF d sub] step c2 k2 t by simp
qed

lemma emit_logs:
  "distinct (handlers_of em ev) \<Longrightarrow>
   calls (emit thr ev d em) = calls em @ map (\<lambda>h. (target h, d)) (handlers_of em ev) \<and>
   console_error (emit thr ev d em) =
     console_error em @ map (\<lambda>h. (ev, target h)) (filter (\<lambda>h. thr (target h) d) (handlers_of em ev))"
proof (cases "handlers em ev")
  case None
  then show ?thesis by (simp add: emit_def handlers_of_def)
next
  case (Some hs)
  assume "distinct (handlers_of em ev)"
  then have "distinct hs" using Some by (simp add: handlers_of_def)
  moreover have "set hs \<subseteq> set (handlers_of em ev)" using Some by (simp add: handlers_of_def)
  ultimately show ?thesis using forEach_logs[of hs em ev thr d] Some
    by (simp add: emit_def handlers_of_def)
qed


lemma call_no_new:
  "x \<notin> set (handlers_of em ev) \<Longrightarrow> x \<notin> set (handlers_of (snd (call thr h d em)) ev)"
  by (auto simp: call_handlers_of split: handler.splits)

lemma call_distinct:
  "distinct (handlers_of em ev) \<Longrightarrow> distinct (handlers_of (snd (call thr h d em)) ev)"
  by (auto simp: call_handlers_of distinct_removeAll split: handler.splits)

lemma forEach_no_new:
  "x \<notin> set (handlers_of em ev) \<Longrightarrow> x \<notin> set (handlers_of (forEach thr ev d hs em) ev)"
proof (induction hs arbitrary: em)
  case Nil
  then show ?case by simp
next
  case (Cons h hs)
  obtain threw em1 where c: "call thr h d em = (threw, em1)" by (cases "call thr h d em")
  have "x \<notin> set (handlers_of em1 ev)"
    using call_no_new[OF Cons.prems, of thr h d] c by simp
  then have "x \<notin> set (handlers_of (if threw then em1\<lparr>console_error := console_error em1 @ [(ev, target h)]\<rparr> else em1) ev)"
    by simp
  from Cons.IH[OF this] Cons.IH[OF Cons.prems] show ?case using c by simp
qed

lemma forEach_distinct:
  "distinct (handlers_of em ev) \<Longrightarrow> distinct (handlers_of (forEach thr ev d hs em) ev)"
proof (induction hs arbitrary: em)
  case Nil
  then show ?case by simp
next
  case (Cons h hs)
  obtain threw em1 where c: "call thr h d em = (threw, em1)" by (cases "call thr h d em")
  have "distinct (handlers_of em1 ev)"
    using call_distinct[OF Cons.prems, of thr h d] c by simp
  then have "distinct (handlers_of (if threw then em1\<lparr>console_error := console_error em1 @ [(ev, target h)]\<rparr> else em1) ev)"
    by simp
  from Cons.IH[OF this] Cons.IH[OF Cons.prems] show ?case using c by simp
qed

lemma forEach_drops_once:
  "OnceFn k ev f \<in> set hs \<Longrightarrow> OnceFn k ev f \<notin> set (handlers_of (forEach thr ev d hs em) ev)"
proof (induction hs arbitrary: em)
  case Nil
  then show ?case by simp
next
  case (Cons h hs)
  let ?W = "OnceFn k ev f"
  obtain threw em1 where c: "call thr h d em = (threw, em1)" by (cases "call thr h d em")
  let ?em2 = "if threw then em1\<lparr>console_error := console_error em1 @ [(ev, target h)]\<rparr> else em1"
  show ?case
  proof (cases "h = ?W")
    case True
    show ?thesis
    proof (cases "?W \<in> set (handlers_of em ev)")
      case live: True
      have "?W \<notin> set (handlers_of em1 ev)"
        using call_handlers_of[of thr ?W d em ev] c True by simp
      then have "?W \<notin> set (handlers_of ?em2 ev)" by simp
      from forEach_no_new[OF this]
      have r: "?W \<notin> set (handlers_of (forEach thr ev d hs ?em2) ev)" .
      have "h \<in> set (handlers_of em ev)" using True live by simp
      then have "forEach thr ev d (h # hs) em = forEach thr ev d hs ?em2" using c by simp
      then show ?thesis using r by simp
    next
      case False
      from forEach_no_new[OF this] show ?thesis using True False by simp
    qed
  next
    case False
    then have "?W \<in> set hs" using Cons.prems by auto
    from Cons.IH[OF this] show ?thesis using c by simp
  qed
qed

lemma emit_drops_once:
  "OnceFn k ev f \<in> set (handlers_of em ev) \<Longrightarrow> OnceFn k ev f \<notin> set (handlers_of (emit thr ev d em) ev)"
proof (cases "handlers em ev")
  case None
  then show ?thesis by (simp add: emit_def handlers_of_def)
next
  case (Some hs)
  assume "OnceFn k ev f \<in> set (handlers_of em ev)"
  then have "OnceFn k ev f \<in> set hs" using Some by (simp add: handlers_of_def)
  from forEach_drops_once[OF this, of thr d em] show ?thesis using Some by (simp add: emit_def)
qed

lemma emit_no_new:
  "x \<notin> set (handlers_of em ev) \<Longrightarrow> x \<notin> set (handlers_of (emit thr ev d em) ev)"
  using forEach_no_new[of x em ev thr d] by (cases "handlers em ev") (auto simp: emit_def handlers_of_def)

lemma emit_distinct:
  "distinct (handlers_of em ev) \<Longrightarrow> distinct (handlers_of (emit thr ev d em) ev)"
  using forEach_distinct[of em ev thr d] by (cases "handlers em ev") (auto simp: emit_def handlers_of_def)

lemma handlers_of_on:
  "handlers_of (on e h em) ev =
     (if e = ev then (if h \<in> set (handlers_of em ev) then handlers_of em ev else handlers_of em ev @ [h])
      else handlers_of em ev)"
  by (auto simp: on_def handlers_of_def Let_def)

lemma handlers_of_once:
  "handlers_of (once ev f em) ev =
     (if OnceFn (closures em) ev f \<in> set (handlers_of em ev) then handlers_of em ev
      else handlers_of em ev @ [OnceFn (closures em) ev f])"
  by (simp add: once_def handlers_of_on)

lemma once_logs: "calls (once ev f em) = calls em" "console_error (once ev f em) = console_error em"
  by (simp_all add: once_def on_def Let_def)


lemma handlers_of_new: "handlers_of new_EventEmitter ev = []"
  by (simp add: handlers_of_def new_EventEmitter_def)

lemma set_ok_new: "set_ok new_EventEmitter ev"
  by (simp add: set_ok_def handlers_of_def new_EventEmitter_def)

lemma closures_on_off:
  "closures (on e h em) = closures em" "closures (off e h em) = closures em"
  by (simp_all add: on_def off_def Let_def split: option.splits)

lemma set_ok_on: "set_ok em ev \<Longrightarrow> set_ok (on e (UserFn f) em) ev"
  by (auto simp: set_ok_def handlers_of_on closures_on_off list_all_iff)

lemma set_ok_off: "set_ok em ev \<Longrightarrow> set_ok (off e h em) ev"
  by (auto simp: set_ok_def handlers_of_off closures_on_off list_all_iff distinct_removeAll)

lemma created_before_Suc: "created_before n h \<Longrightarrow> created_before (Suc n) h"
  by (cases h) auto

lemma set_ok_once: "set_ok em ev \<Longrightarrow> set_ok (once e f em) ev"
  by (auto simp: set_ok_def once_def handlers_of_on closures_on_off list_all_iff
      created_before_Suc)

lemma forEach_closures: "closures (forEach thr ev d hs em) = closures em"
proof (induction hs arbitrary: em)
  case Nil
  then show ?case by simp
next
  case (Cons h hs)
  obtain threw em1 where c: "call thr h d em = (threw, em1)" by (cases "call thr h d em")
  have "closures em1 = closures em" using call_closures[of thr h d em] c by simp
  then show ?case using Cons.IH c by simp
qed

lemma set_ok_emit: "set_ok em ev \<Longrightarrow> set_ok (emit thr ev d em) ev"
proof -
  assume ok: "set_ok em ev"
  have cl: "closures (emit thr ev d em) = closures em"
    by (cases "handlers em ev") (simp_all add: emit_def forEach_closures)
  have "set (handlers_of (emit thr ev d em) ev) \<subseteq> set (handlers_of em ev)"
    using emit_no_new[of _ em ev thr d] by blast
  then show ?thesis
    using ok emit_distinct[of em ev thr d] cl by (auto simp: set_ok_def list_all_iff)
qed



text \<open>
  C8. A handler subscribed with \<^verbatim>\<open>once\<close> is registered until the event is first
  published, runs in that publication, and is no longer registered after it, whether or
  not it threw. A second publication runs exactly the handlers still registered, all of
  which were registered before the \<^verbatim>\<open>once\<close> call; so it does not run the handler again,
  unless the same function had also been subscribed on its own.
\<close>

theorem once_unsubscribes:
  fixes em :: "'p EventEmitter"
  assumes ok: "set_ok em ev"
  shows "OnceFn (closures em) ev f \<in> set (handlers_of (once ev f em) ev) \<and>
         calls (emit thr ev d1 (once ev f em)) =
           calls em @ map (\<lambda>h. (target h, d1)) (handlers_of em ev) @ [(f, d1)] \<and>
         OnceFn (closures em) ev f \<notin> set (handlers_of (emit thr ev d1 (once ev f em)) ev) \<and>
         calls (emit thr ev d2 (emit thr ev d1 (once ev f em))) =
           calls (emit thr ev d1 (once ev f em)) @
           map (\<lambda>h. (target h, d2)) (handlers_of (emit thr ev d1 (once ev f em)) ev) \<and>
         set (handlers_of (emit thr ev d1 (once ev f em)) ev) \<subseteq> set (handlers_of em ev) \<and>
         ((\<forall>h \<in> set (handlers_of em ev). target h \<noteq> f) \<longrightarrow>
            (f, d2) \<notin> set (drop (length (calls (emit thr ev d1 (once ev f em))))
                            (calls (emit thr ev d2 (emit thr ev d1 (once ev f em))))))"
proof -
  let ?W = "OnceFn (closures em) ev f"
  let ?em1 = "once ev f em"
  let ?em2 = "emit thr ev d1 ?em1"
  have d: "distinct (handlers_of em ev)" using ok by (simp add: set_ok_def)
  have fresh: "?W \<notin> set (handlers_of em ev)"
    using ok by (auto simp: set_ok_def list_all_iff)
  have h1: "handlers_of ?em1 ev = handlers_of em ev @ [?W]"
    using fresh by (simp add: handlers_of_once)
  have d1: "distinct (handlers_of ?em1 ev)" using d fresh h1 by simp
  have a: "?W \<in> set (handlers_of ?em1 ev)" using h1 by simp
  have b: "calls ?em2 = calls em @ map (\<lambda>h. (target h, d1)) (handlers_of em ev) @ [(f, d1)]"
    using emit_logs[OF d1, of thr d1] h1 by (simp add: once_logs)
  have c: "?W \<notin> set (handlers_of ?em2 ev)" using emit_drops_once[OF a] .
  have d2: "distinct (handlers_of ?em2 ev)" using emit_distinct[OF d1] .
  have e: "calls (emit thr ev d2 ?em2) =
             calls ?em2 @ map (\<lambda>h. (target h, d2)) (handlers_of ?em2 ev)"
    using emit_logs[OF d2, of thr d2] by simp
  have g: "set (handlers_of ?em2 ev) \<subseteq> set (handlers_of em ev)"
  proof
    fix x assume x: "x \<in> set (handlers_of ?em2 ev)"
    then have "x \<in> set (handlers_of ?em1 ev)" using emit_no_new[of x ?em1 ev thr d1] by blast
    moreover have "x \<noteq> ?W" using x c by auto
    ultimately show "x \<in> set (handlers_of em ev)" using h1 by simp
  qed
  have i: "(\<forall>h \<in> set (handlers_of em ev). target h \<noteq> f) \<longrightarrow>
            (f, d2) \<notin> set (drop (length (calls ?em2)) (calls (emit thr ev d2 ?em2)))"
    using e g by auto
  show ?thesis using a b c e g i by blast
qed

theorem once_unsubscribes_witness:
  "set_ok (on ''count'' (UserFn 0) (new_EventEmitter :: nat EventEmitter)) ''count'' \<and>
   calls (emit (\<lambda>f d. f = 5) ''count'' 1
     (once ''count'' 5 (on ''count'' (UserFn 0) (new_EventEmitter :: nat EventEmitter)))) =
     [(0, 1), (5, 1)] \<and>
   OnceFn 0 ''count'' 5 \<notin> set (handlers_of (emit (\<lambda>f d. f = 5) ''count'' 1
     (once ''count'' 5 (on ''count'' (UserFn 0) (new_EventEmitter :: nat EventEmitter)))) ''count'') \<and>
   (5, 2) \<notin> set (drop (length (calls (emit (\<lambda>f d. f = 5) ''count'' 1
       (once ''count'' 5 (on ''count'' (UserFn 0) (new_EventEmitter :: nat EventEmitter))))))
     (calls (emit (\<lambda>f d. f = 5) ''count'' 2 (emit (\<lambda>f d. f = 5) ''count'' 1
       (once ''count'' 5 (on ''count'' (UserFn 0) (new_EventEmitter :: nat EventEmitter)))))))"
proof -
  let ?em = "on ''count'' (UserFn 0) (new_EventEmitter :: nat EventEmitter)"
  have ok: "set_ok ?em ''count''" by (rule set_ok_on) (rule set_ok_new)
  have hs: "handlers_of ?em ''count'' = [UserFn 0]"
    by (simp add: handlers_of_on handlers_of_new)
  have cl: "closures ?em = 0" by (simp add: on_def Let_def new_EventEmitter_def)
  have cs: "calls ?em = []" by (simp add: on_def Let_def new_EventEmitter_def)
  show ?thesis
    using once_unsubscribes [OF ok, of 5 "\<lambda>f d. f = 5" 1 2] ok
    by (auto simp: hs cl cs)
qed


lemma set_ok_removeAll: "set_ok em ev \<Longrightarrow> set_ok (removeAllListeners evo em) ev"
  by (auto simp: set_ok_def removeAllListeners_def handlers_of_def split: option.splits)


section \<open>Properties of the transport\<close>

lemmas prim_defs = new_promise_def settle_def settle_in_def setTimeout_def clearTimeout_def ws_emit_def
  setState_def update_socket_def stopPing_def startPing_def readyState_of_def

lemma foldl_reject_pending:
  "foldl reject_pending m es =
     m\<lparr>timers := cancel_all (map (\<lambda>e. timeout (snd e)) es) (timers m),
       promises := reject_all ''WebSocket disconnected'' (map (\<lambda>e. settles (snd e)) es) (promises m)\<rparr>"
  by (induction es arbitrary: m)
     (simp_all add: reject_pending_def settle_def clearTimeout_def cancel_all_def reject_all_def)

lemma cleanup_eq:
  "cleanup m =
     m\<lparr>ws := None, reconnectTimer := None, pingTimer := None, pendingRequests := [],
       sockets := close_current (ws m) (sockets m),
       timers := cancel_all (map (\<lambda>e. timeout (snd e)) (pendingRequests m))
                   (cancel_opt (reconnectTimer m) (cancel_opt (pingTimer m) (timers m))),
       promises := reject_all ''WebSocket disconnected''
                     (map (\<lambda>e. settles (snd e)) (pendingRequests m)) (promises m)\<rparr>"
  by (cases "pingTimer m"; cases "reconnectTimer m"; cases "ws m")
     (auto simp: cleanup_def foldl_reject_pending stopPing_def clearTimeout_def cancel_opt_def
        close_current_def readyState_of_def update_socket_def Let_def)

lemma stopPing_eq:
  "stopPing m = m\<lparr>pingTimer := None, timers := cancel_opt (pingTimer m) (timers m)\<rparr>"
  by (cases "pingTimer m") (simp_all add: stopPing_def clearTimeout_def cancel_opt_def)

lemma startPing_eq:
  "startPing m =
     m\<lparr>pingTimer := Some (length (timers m)),
       timers := cancel_opt (pingTimer m) (timers m) @
                 [\<lparr>callback = ping_cb, delay = pingInterval (options m), active = True\<rparr>]\<rparr>"
  by (cases "pingTimer m")
     (simp_all add: startPing_def stopPing_eq setTimeout_def cancel_opt_def cancel_def Let_def)

lemma map_update_same:
  "(\<And>s. g (f s) = g s) \<Longrightarrow> map g (xs[i := f (xs ! i)]) = map g xs"
  by (cases "i < length xs") (simp_all add: map_update list_update_same_conv list_update_beyond)

lemma onOpen_cb_fields:
  "state (onOpen_cb p m) = connected"
  "reconnectAttempts (onOpen_cb p m) = 0"
  "promises (onOpen_cb p m) = settle_in p (Resolved None) (promises m)"
  "ws (onOpen_cb p m) = ws m"
  "length (sockets (onOpen_cb p m)) = length (sockets m)"
  "map readyState (sockets (onOpen_cb p m)) = map readyState (sockets m)"
  "intentionalClose (onOpen_cb p m) = intentionalClose m"
  "reconnectTimer (onOpen_cb p m) = reconnectTimer m"
  "pendingRequests (onOpen_cb p m) = pendingRequests m"
  "options (onOpen_cb p m) = options m"
  by (auto simp: onOpen_cb_def startPing_eq settle_def ws_emit_def setState_def update_socket_def
      Let_def map_update_same split: option.splits)

lemma onOpen_cb_readyState:
  "i < length (sockets m) \<Longrightarrow>
   readyState (sockets (onOpen_cb p m) ! i) = readyState (sockets m ! i)"
  using onOpen_cb_fields(5,6)[of p m] by (metis nth_map)

lemma connect_again:
  "state m = connected \<or> state m = connecting \<Longrightarrow>
   connect m = (length (promises m), m\<lparr>promises := promises m @ [Some (Resolved None)]\<rparr>)"
  by (auto simp: connect_def prim_defs Let_def)

lemma connect_fresh:
  "state m \<noteq> connected \<Longrightarrow> state m \<noteq> connecting \<Longrightarrow> ctor_error m = None \<Longrightarrow>
   connect m = (length (promises m),
     m\<lparr>intentionalClose := False, state := connecting,
       published := published m @ [ev_statechange connecting],
       promises := promises m @ [None],
       ws := Some (length (sockets m)),
       sockets := sockets m @ [\<lparr>ws_url = url m, readyState = CONNECTING,
                      onOpen = Some (length (promises m)), onError = Some (length (promises m)), sent = []\<rparr>]\<rparr>)"
  by (auto simp: connect_def prim_defs Let_def)

lemma connect_throws:
  "state m \<noteq> connected \<Longrightarrow> state m \<noteq> connecting \<Longrightarrow> ctor_error m = Some err \<Longrightarrow>
   connect m = (length (promises m),
     m\<lparr>intentionalClose := False, state := disconnected,
       published := published m @ [ev_statechange connecting, ev_statechange disconnected],
       promises := promises m @ [Some (Rejected err)]\<rparr>)"
  by (auto simp: connect_def prim_defs Let_def)

lemma length_cancel [simp]: "length (cancel h ts) = length ts"
  by (simp add: cancel_def)

lemma length_cancel_opt [simp]: "length (cancel_opt ho ts) = length ts"
  by (cases ho) (simp_all add: cancel_opt_def)

lemma length_cancel_all [simp]: "length (cancel_all hs ts) = length ts"
  unfolding cancel_all_def by (induction hs arbitrary: ts) simp_all

lemma length_settle_in [simp]: "length (settle_in p out ps) = length ps"
  by (simp add: settle_in_def)

lemma length_reject_all [simp]: "length (reject_all err qs ps) = length ps"
  unfolding reject_all_def by (induction qs arbitrary: ps) simp_all

lemma length_close_current [simp]: "length (close_current w socks) = length socks"
  by (cases w) (simp_all add: close_current_def)

lemma handleClose_reconnects:
  assumes "\<not> intentionalClose m" "reconnect (options m)"
  shows "state (handleClose m) = reconnecting"
    and "reconnectTimer (handleClose m) = Some (length (timers m))"
    and "timers (handleClose m) =
           cancel_all (map (\<lambda>e. timeout (snd e)) (pendingRequests m))
             (cancel_opt (reconnectTimer m) (cancel_opt (pingTimer m) (timers m))) @
           [\<lparr>callback = reconnect_cb, delay = backoff (options m) (reconnectAttempts m), active = True\<rparr>]"
    and "ws (handleClose m) = None"
    and "pendingRequests (handleClose m) = []"
    and "pingTimer (handleClose m) = None"
    and "reconnectAttempts (handleClose m) = reconnectAttempts m"
    and "options (handleClose m) = options m"
    and "intentionalClose (handleClose m) = intentionalClose m"
    and "ctor_error (handleClose m) = ctor_error m"
    and "url (handleClose m) = url m"
    and "sockets (handleClose m) = close_current (ws m) (sockets m)"
    and "promises (handleClose m) =
           reject_all ''WebSocket disconnected'' (map (\<lambda>e. settles (snd e)) (pendingRequests m)) (promises m)"
    and "published (handleClose m) =
           published m @ [ev_close] @ (if state m = reconnecting then [] else [ev_statechange reconnecting])"
  using assms
  by (simp_all add: handleClose_def cleanup_eq scheduleReconnect_def ws_emit_def setState_def
      setTimeout_def Let_def)

lemma handleClose_stops:
  assumes "intentionalClose m \<or> \<not> reconnect (options m)"
  shows "state (handleClose m) = disconnected"
    and "reconnectTimer (handleClose m) = None"
    and "timers (handleClose m) =
           cancel_all (map (\<lambda>e. timeout (snd e)) (pendingRequests m))
             (cancel_opt (reconnectTimer m) (cancel_opt (pingTimer m) (timers m)))"
    and "ws (handleClose m) = None"
    and "pendingRequests (handleClose m) = []"
    and "pingTimer (handleClose m) = None"
    and "reconnectAttempts (handleClose m) = reconnectAttempts m"
    and "options (handleClose m) = options m"
    and "intentionalClose (handleClose m) = intentionalClose m"
    and "ctor_error (handleClose m) = ctor_error m"
    and "url (handleClose m) = url m"
    and "sockets (handleClose m) = close_current (ws m) (sockets m)"
    and "promises (handleClose m) =
           reject_all ''WebSocket disconnected'' (map (\<lambda>e. settles (snd e)) (pendingRequests m)) (promises m)"
  using assms
  by (auto simp: handleClose_def cleanup_eq ws_emit_def setState_def Let_def)

lemma send_frame:
  "send msg (m\<lparr>promises := P, timers := T, pendingRequests := R\<rparr>) =
     (case send msg m of Inl err \<Rightarrow> Inl err
      | Inr m1 \<Rightarrow> Inr (m1\<lparr>promises := P, timers := T, pendingRequests := R\<rparr>))"
  by (auto simp: send_def readyState_of_def update_socket_def split: option.splits)


lemma example_states:
  "m_init = \<lparr>ws = None, url = ''ws://localhost:8585'', options = DEFAULT_WS_OPTIONS,
      state = disconnected, reconnectAttempts = 0, reconnectTimer = None, pingTimer = None,
      pendingRequests = [], intentionalClose = False, sockets = [], ctor_error = None,
      timers = [], promises = [], published = [], console = []\<rparr>"
  "m_connecting = \<lparr>ws = Some 0, url = ''ws://localhost:8585'', options = DEFAULT_WS_OPTIONS,
      state = connecting, reconnectAttempts = 0, reconnectTimer = None, pingTimer = None,
      pendingRequests = [], intentionalClose = False,
      sockets = [\<lparr>ws_url = ''ws://localhost:8585'', readyState = CONNECTING, onOpen = Some 0,
                  onError = Some 0, sent = []\<rparr>],
      ctor_error = None, timers = [], promises = [None],
      published = [ev_statechange connecting], console = []\<rparr>"
  "m_connected = \<lparr>ws = Some 0, url = ''ws://localhost:8585'', options = DEFAULT_WS_OPTIONS,
      state = connected, reconnectAttempts = 0, reconnectTimer = None, pingTimer = Some 0,
      pendingRequests = [], intentionalClose = False,
      sockets = [\<lparr>ws_url = ''ws://localhost:8585'', readyState = OPEN, onOpen = None,
                  onError = None, sent = []\<rparr>],
      ctor_error = None,
      timers = [\<lparr>callback = ping_cb, delay = 30000, active = True\<rparr>],
      promises = [Some (Resolved None)],
      published = [ev_statechange connecting, ev_statechange connected, ev_open], console = []\<rparr>"
  "m_requesting = \<lparr>ws = Some 0, url = ''ws://localhost:8585'', options = DEFAULT_WS_OPTIONS,
      state = connected, reconnectAttempts = 0, reconnectTimer = None, pingTimer = Some 0,
      pendingRequests = [(''a'', \<lparr>settles = 1, timeout = 1\<rparr>)], intentionalClose = False,
      sockets = [\<lparr>ws_url = ''ws://localhost:8585'', readyState = OPEN, onOpen = None,
                  onError = None, sent = [query ''a'' q_status]\<rparr>],
      ctor_error = None,
      timers = [\<lparr>callback = ping_cb, delay = 30000, active = True\<rparr>,
                \<lparr>callback = request_timeout ''a'' q_status 1, delay = 10000, active = True\<rparr>],
      promises = [Some (Resolved None), None],
      published = [ev_statechange connecting, ev_statechange connected, ev_open], console = []\<rparr>"
  by (simp_all add: m_requesting_def m_connected_def m_connecting_def m_init_def run_def
      new_WebSocketManager_def DEFAULT_WS_OPTIONS_def connect_def onOpen_cb_def request_def
      send_def startPing_eq cancel_opt_def prim_defs Let_def)

text \<open>
  C1. When the state is connected or connecting, \<^verbatim>\<open>connect()\<close> returns a promise that is
  already resolved and changes nothing else: no socket is constructed. In particular, from
  a state that is neither, two calls in a row construct one socket; the second promise is
  resolved at once, the first is pending until that socket opens, and after the open both
  are resolved and there is still one socket.
\<close>

theorem connect_single_flight:
  "(state m = connected \<or> state m = connecting \<longrightarrow>
      connect m = (length (promises m), m\<lparr>promises := promises m @ [Some (Resolved None)]\<rparr>)) \<and>
   (state n \<noteq> connected \<and> state n \<noteq> connecting \<and> ctor_error n = None \<longrightarrow>
      (case connect n of (p1, n1) \<Rightarrow>
       case connect n1 of (p2, n2) \<Rightarrow>
         state n1 = connecting \<and> ws n1 = Some (length (sockets n)) \<and>
         length (sockets n1) = Suc (length (sockets n)) \<and>
         sockets n2 = sockets n1 \<and> ws n2 = ws n1 \<and> p1 \<noteq> p2 \<and>
         promises n2 ! p1 = None \<and> promises n2 ! p2 = Some (Resolved None) \<and>
         (let n3 = fire (sock_open (length (sockets n))) n2
          in state n3 = connected \<and> length (sockets n3) = Suc (length (sockets n)) \<and>
             ws n3 = Some (length (sockets n)) \<and>
             readyState (sockets n3 ! length (sockets n)) = OPEN \<and>
             promises n3 ! p1 = Some (Resolved None) \<and>
             promises n3 ! p2 = Some (Resolved None))))"
proof (intro conjI impI)
  assume "state m = connected \<or> state m = connecting"
  then show "connect m = (length (promises m), m\<lparr>promises := promises m @ [Some (Resolved None)]\<rparr>)"
    by (rule connect_again)
next
  assume a: "state n \<noteq> connected \<and> state n \<noteq> connecting \<and> ctor_error n = None"
  then have c1: "connect n = (length (promises n),
     n\<lparr>intentionalClose := False, state := connecting,
       published := published n @ [ev_statechange connecting],
       promises := promises n @ [None],
       ws := Some (length (sockets n)),
       sockets := sockets n @ [\<lparr>ws_url = url n, readyState = CONNECTING,
                      onOpen = Some (length (promises n)), onError = Some (length (promises n)), sent = []\<rparr>]\<rparr>)"
    by (simp add: connect_fresh)
  show "case connect n of (p1, n1) \<Rightarrow>
       case connect n1 of (p2, n2) \<Rightarrow>
         state n1 = connecting \<and> ws n1 = Some (length (sockets n)) \<and>
         length (sockets n1) = Suc (length (sockets n)) \<and>
         sockets n2 = sockets n1 \<and> ws n2 = ws n1 \<and> p1 \<noteq> p2 \<and>
         promises n2 ! p1 = None \<and> promises n2 ! p2 = Some (Resolved None) \<and>
         (let n3 = fire (sock_open (length (sockets n))) n2
          in state n3 = connected \<and> length (sockets n3) = Suc (length (sockets n)) \<and>
             ws n3 = Some (length (sockets n)) \<and>
             readyState (sockets n3 ! length (sockets n)) = OPEN \<and>
             promises n3 ! p1 = Some (Resolved None) \<and>
             promises n3 ! p2 = Some (Resolved None))"
    by (simp add: c1 connect_again onOpen_cb_fields onOpen_cb_readyState update_socket_def
        settle_in_def readyState_of_def Let_def nth_append)
qed



theorem connect_single_flight_witness:
  "state m_connecting = connecting \<and>
   connect m_connecting = (1, m_connecting\<lparr>promises := [None, Some (Resolved None)]\<rparr>) \<and>
   (state m_init \<noteq> connected \<and> state m_init \<noteq> connecting \<and> ctor_error m_init = None) \<and>
   (case connect m_init of (p1, n1) \<Rightarrow>
    case connect n1 of (p2, n2) \<Rightarrow>
      p1 = 0 \<and> p2 = 1 \<and> length (sockets n2) = 1 \<and>
      promises n2 = [None, Some (Resolved None)] \<and>
      promises (fire (sock_open 0) n2) = [Some (Resolved None), Some (Resolved None)] \<and>
      length (sockets (fire (sock_open 0) n2)) = 1)"
proof -
  have c: "connect m_init = (0, m_connecting)"
    by (simp add: example_states connect_def prim_defs Let_def)
  have c2: "connect m_connecting = (1, m_connecting\<lparr>promises := [None, Some (Resolved None)]\<rparr>)"
    using connect_single_flight [of m_connecting m_init] by (simp add: example_states)
  have o: "fire (sock_open 0) (m_connecting\<lparr>promises := [None, Some (Resolved None)]\<rparr>) =
           m_connected\<lparr>promises := [Some (Resolved None), Some (Resolved None)]\<rparr>"
    by (simp add: example_states onOpen_cb_def startPing_eq cancel_opt_def prim_defs Let_def
        DEFAULT_WS_OPTIONS_def)
  have "state m_connecting = connecting"
    and "state m_init \<noteq> connected \<and> state m_init \<noteq> connecting \<and> ctor_error m_init = None"
    and "length (sockets m_connecting) = 1" and "length (sockets m_connected) = 1"
    by (simp_all add: example_states)
  then show ?thesis
    by (simp add: c c2 o del: fire.simps)
qed

text \<open>
  C3, as the code has it. A response frame whose id matches no pending entry settles no
  promise, leaves the pending table and the timers as they were, and is published as a
  message notification like any other frame that is not a pong. The facade's handler of
  that notification has no case for a response frame and does nothing with it.
\<close>

theorem unmatched_response_forwarded:
  assumes "map_of (pendingRequests m) ident = None"
    and "msg = msg_response_ok ident rd \<or> msg = msg_response_fail ident err"
  shows "handleMessage (frame msg) m = m\<lparr>published := published m @ [ev_message msg]\<rparr> \<and>
         promises (handleMessage (frame msg) m) = promises m \<and>
         pendingRequests (handleMessage (frame msg) m) = pendingRequests m \<and>
         timers (handleMessage (frame msg) m) = timers m \<and>
         handleServerMessage msg e = e"
  using assms
  by (auto simp: handleMessage_def forward_def ws_emit_def handleServerMessage_def)


theorem unmatched_response_forwarded_witness:
  "map_of (pendingRequests m_requesting) ''b'' = None \<and>
   handleMessage (frame (msg_response_fail ''b'' ''gone'')) m_requesting =
     m_requesting\<lparr>published := published m_requesting @ [ev_message (msg_response_fail ''b'' ''gone'')]\<rparr> \<and>
   pendingRequests (handleMessage (frame (msg_response_fail ''b'' ''gone'')) m_requesting) =
     [(''a'', \<lparr>settles = 1, timeout = 1\<rparr>)] \<and>
   handleServerMessage (msg_response_fail ''b'' ''gone'') edge_init = edge_init"
proof -
  have h: "map_of (pendingRequests m_requesting) ''b'' = None"
    by (simp add: example_states)
  show ?thesis
    using unmatched_response_forwarded
            [OF h, where msg = "msg_response_fail ''b'' ''gone''" and err = "''gone''"
               and rd = "\<lparr>rd_query = q_status, rd_result = ''{}''\<rparr>" and e = edge_init] h
    by (simp add: example_states)
qed

text \<open>
  C3, as the claim states it, fails: with one request pending under id \<open>a\<close>, a failure
  response with id \<open>late\<close> matches nothing, and a message notification is published for it.
\<close>

theorem unmatched_response_counterexample:
  "map_of (pendingRequests m_requesting) ''late'' = None \<and>
   published (fire (sock_message 0 (frame (msg_response_fail ''late'' ''gone''))) m_requesting) =
     [ev_statechange connecting, ev_statechange connected, ev_open,
      ev_message (msg_response_fail ''late'' ''gone'')]"
  by (simp add: example_states readyState_of_def handleMessage_def forward_def ws_emit_def)

text \<open>
  C9. If \<^verbatim>\<open>send\<close> throws inside \<^verbatim>\<open>request\<close> (there is no socket, or it is not open) and
  the id is not that of a request still pending, then the promise returned is rejected
  with the error of \<^verbatim>\<open>send\<close>, the expiry timer just set is cancelled, and everything
  else is as before the call: the pending table is unchanged and nothing was written to
  any socket.
\<close>

theorem request_send_failure:
  assumes "send (query ident q) m = Inl err"
    and "ident \<notin> fst ` set (pendingRequests m)"
  shows "request ident q t m =
           (length (promises m),
            m\<lparr>promises := promises m @ [Some (Rejected err)],
              timers := timers m @
                [\<lparr>callback = request_timeout ident q (length (promises m)), delay = t, active = False\<rparr>]\<rparr>) \<and>
         pendingRequests (snd (request ident q t m)) = pendingRequests m \<and>
         sockets (snd (request ident q t m)) = sockets m \<and>
         promises (snd (request ident q t m)) ! fst (request ident q t m) = Some (Rejected err) \<and>
         \<not> active (timers (snd (request ident q t m)) ! length (timers m))"
proof -
  have "request ident q t m =
           (length (promises m),
            m\<lparr>promises := promises m @ [Some (Rejected err)],
              timers := timers m @
                [\<lparr>callback = request_timeout ident q (length (promises m)), delay = t, active = False\<rparr>]\<rparr>)"
    using assms
    by (simp add: request_def new_promise_def setTimeout_def Let_def send_frame settle_def
        settle_in_def clearTimeout_def cancel_def delete_update_same)
  then show ?thesis by simp
qed

theorem request_send_failure_witness:
  "send (query ''b'' q_config) (m_requesting\<lparr>ws := None\<rparr>) = Inl ''WebSocket is not connected'' \<and>
   ''b'' \<notin> fst ` set (pendingRequests (m_requesting\<lparr>ws := None\<rparr>)) \<and>
   pendingRequests (snd (request ''b'' q_config 50 (m_requesting\<lparr>ws := None\<rparr>))) =
     [(''a'', \<lparr>settles = 1, timeout = 1\<rparr>)] \<and>
   promises (snd (request ''b'' q_config 50 (m_requesting\<lparr>ws := None\<rparr>))) =
     [Some (Resolved None), None, Some (Rejected ''WebSocket is not connected'')] \<and>
   timers (snd (request ''b'' q_config 50 (m_requesting\<lparr>ws := None\<rparr>))) ! 2 =
     \<lparr>callback = request_timeout ''b'' q_config 2, delay = 50, active = False\<rparr>"
proof -
  have s: "send (query ''b'' q_config) (m_requesting\<lparr>ws := None\<rparr>) = Inl ''WebSocket is not connected''"
    by (simp add: send_def)
  have f: "''b'' \<notin> fst ` set (pendingRequests (m_requesting\<lparr>ws := None\<rparr>))"
    by (simp add: example_states)
  show ?thesis
    using request_send_failure [OF s f, of 50] s f
    by (simp add: example_states)
qed

lemma onError_cb_fields:
  "state (onError_cb p m) = state m"
  "reconnectAttempts (onError_cb p m) = reconnectAttempts m"
  "promises (onError_cb p m) = settle_in p (Rejected ''WebSocket connection failed'') (promises m)"
  "ws (onError_cb p m) = ws m"
  "length (sockets (onError_cb p m)) = length (sockets m)"
  "map readyState (sockets (onError_cb p m)) = map readyState (sockets m)"
  "intentionalClose (onError_cb p m) = intentionalClose m"
  "reconnectTimer (onError_cb p m) = reconnectTimer m"
  "pingTimer (onError_cb p m) = pingTimer m"
  "pendingRequests (onError_cb p m) = pendingRequests m"
  "options (onError_cb p m) = options m"
  "timers (onError_cb p m) = timers m"
  "ctor_error (onError_cb p m) = ctor_error m"
  "url (onError_cb p m) = url m"
  "published (onError_cb p m) = published m"
  by (auto simp: onError_cb_def settle_def update_socket_def Let_def map_update_same
      split: option.splits)

lemma sock_error_fields:
  "state (fire (sock_error i) m) = state m"
  "reconnectAttempts (fire (sock_error i) m) = reconnectAttempts m"
  "ws (fire (sock_error i) m) = ws m"
  "length (sockets (fire (sock_error i) m)) = length (sockets m)"
  "map readyState (sockets (fire (sock_error i) m)) = map readyState (sockets m)"
  "intentionalClose (fire (sock_error i) m) = intentionalClose m"
  "reconnectTimer (fire (sock_error i) m) = reconnectTimer m"
  "pingTimer (fire (sock_error i) m) = pingTimer m"
  "pendingRequests (fire (sock_error i) m) = pendingRequests m"
  "options (fire (sock_error i) m) = options m"
  "timers (fire (sock_error i) m) = timers m"
  "ctor_error (fire (sock_error i) m) = ctor_error m"
  "url (fire (sock_error i) m) = url m"
  by (auto simp: onError_cb_fields handleError_def ws_emit_def update_socket_def map_update_same
      split: option.splits)

lemma sock_error_promise:
  "i < length (sockets m) \<Longrightarrow> onError (sockets m ! i) = Some p \<Longrightarrow>
   promises (fire (sock_error i) m) = settle_in p (Rejected ''WebSocket connection failed'') (promises m)"
  by (simp add: onError_cb_fields handleError_def ws_emit_def update_socket_def)

lemma readyState_nth:
  "map readyState xs = map readyState ys \<Longrightarrow> i < length ys \<Longrightarrow> readyState (xs ! i) = readyState (ys ! i)"
  by (metis length_map nth_map)


text \<open>
  C4, as the code has it. A caller's \<^verbatim>\<open>connect()\<close> from a state that is neither connected
  nor connecting fails in one of two ways. If the socket constructor throws, the promise
  is rejected with that error, the state is disconnected, and no socket or timer is
  created. Otherwise a socket is constructed and the state is connecting; when that socket
  reports an error the promise is rejected and the state is still connecting; when it then
  closes, the common close handling runs: with auto-reconnect enabled the state becomes
  reconnecting and a retry is scheduled after the backoff delay, with auto-reconnect
  disabled the state becomes disconnected and no timer is set.
\<close>

theorem connect_failure:
  assumes idle: "state m \<noteq> connected" "state m \<noteq> connecting"
  shows "(ctor_error m = Some err \<longrightarrow>
            (case connect m of (p, m1) \<Rightarrow>
               promises m1 ! p = Some (Rejected err) \<and> state m1 = disconnected \<and>
               sockets m1 = sockets m \<and> timers m1 = timers m \<and>
               reconnectTimer m1 = reconnectTimer m)) \<and>
         (ctor_error m = None \<longrightarrow>
            (case connect m of (p, m1) \<Rightarrow>
               let i = length (sockets m);
                   m2 = fire (sock_error i) m1;
                   m3 = fire (sock_close i) m2
               in ws m1 = Some i \<and> state m1 = connecting \<and> promises m1 ! p = None \<and>
                  promises m2 ! p = Some (Rejected ''WebSocket connection failed'') \<and>
                  state m2 = connecting \<and>
                  (reconnect (options m) \<longrightarrow>
                     state m3 = reconnecting \<and>
                     reconnectTimer m3 = Some (length (timers m)) \<and>
                     length (timers m3) = Suc (length (timers m)) \<and>
                     timers m3 ! length (timers m) =
                       \<lparr>callback = reconnect_cb,
                        delay = backoff (options m) (reconnectAttempts m), active = True\<rparr>) \<and>
                  (\<not> reconnect (options m) \<longrightarrow>
                     state m3 = disconnected \<and> reconnectTimer m3 = None \<and>
                     length (timers m3) = length (timers m))))"
proof (intro conjI impI)
  assume "ctor_error m = Some err"
  then show "case connect m of (p, m1) \<Rightarrow>
               promises m1 ! p = Some (Rejected err) \<and> state m1 = disconnected \<and>
               sockets m1 = sockets m \<and> timers m1 = timers m \<and>
               reconnectTimer m1 = reconnectTimer m"
    using idle by (simp add: connect_throws)
next
  assume ok: "ctor_error m = None"
  let ?i = "length (sockets m)"
  let ?p = "length (promises m)"
  let ?m1 = "m\<lparr>intentionalClose := False, state := connecting,
       published := published m @ [ev_statechange connecting],
       promises := promises m @ [None],
       ws := Some (length (sockets m)),
       sockets := sockets m @ [\<lparr>ws_url = url m, readyState = CONNECTING,
                      onOpen = Some (length (promises m)), onError = Some (length (promises m)), sent = []\<rparr>]\<rparr>"
  let ?m2 = "fire (sock_error ?i) ?m1"
  let ?m2c = "update_socket ?i (\<lambda>s. s\<lparr>readyState := CLOSED\<rparr>) ?m2"
  have c: "connect m = (?p, ?m1)" using idle ok by (rule connect_fresh)
  have p2: "promises ?m2 = promises m @ [Some (Rejected ''WebSocket connection failed'')]"
    using sock_error_promise[of ?i ?m1 ?p] by (simp add: settle_in_def del: fire.simps)
  have rs: "readyState (sockets ?m2 ! ?i) = CONNECTING"
    using readyState_nth[OF sock_error_fields(5)[of ?i ?m1], of ?i] by (simp del: fire.simps)
  have len2: "length (sockets ?m2) = Suc ?i" by (simp add: sock_error_fields del: fire.simps)
  have f3: "fire (sock_close ?i) ?m2 = handleClose ?m2c"
    using rs len2 by (simp add: readyState_of_def del: fire.simps(2))
  have ic: "\<not> intentionalClose ?m2c" "options ?m2c = options m" "timers ?m2c = timers m"
     "reconnectAttempts ?m2c = reconnectAttempts m" "reconnectTimer ?m2c = reconnectTimer m"
     "pendingRequests ?m2c = pendingRequests m" "pingTimer ?m2c = pingTimer m"
    by (simp_all add: update_socket_def sock_error_fields del: fire.simps)
  show "case connect m of (p, m1) \<Rightarrow>
               let i = length (sockets m);
                   m2 = fire (sock_error i) m1;
                   m3 = fire (sock_close i) m2
               in ws m1 = Some i \<and> state m1 = connecting \<and> promises m1 ! p = None \<and>
                  promises m2 ! p = Some (Rejected ''WebSocket connection failed'') \<and>
                  state m2 = connecting \<and>
                  (reconnect (options m) \<longrightarrow>
                     state m3 = reconnecting \<and>
                     reconnectTimer m3 = Some (length (timers m)) \<and>
                     length (timers m3) = Suc (length (timers m)) \<and>
                     timers m3 ! length (timers m) =
                       \<lparr>callback = reconnect_cb,
                        delay = backoff (options m) (reconnectAttempts m), active = True\<rparr>) \<and>
                  (\<not> reconnect (options m) \<longrightarrow>
                     state m3 = disconnected \<and> reconnectTimer m3 = None \<and>
                     length (timers m3) = length (timers m))"
    unfolding c Let_def prod.case f3
    using ic p2
    by (simp add: handleClose_reconnects handleClose_stops sock_error_fields nth_append
        del: fire.simps)
qed

theorem connect_failure_witness:
  "state m_init \<noteq> connected \<and> state m_init \<noteq> connecting \<and> ctor_error m_init = None \<and>
   reconnect (options m_init) \<and>
   (case connect m_init of (p, m1) \<Rightarrow>
      promises (fire (sock_error 0) m1) ! p = Some (Rejected ''WebSocket connection failed'') \<and>
      state (fire (sock_close 0) (fire (sock_error 0) m1)) = reconnecting \<and>
      timers (fire (sock_close 0) (fire (sock_error 0) m1)) ! 0 =
        \<lparr>callback = reconnect_cb, delay = 1000, active = True\<rparr>) \<and>
   \<not> reconnect (options (m_init\<lparr>options := DEFAULT_WS_OPTIONS\<lparr>reconnect := False\<rparr>\<rparr>)) \<and>
   (case connect (m_init\<lparr>options := DEFAULT_WS_OPTIONS\<lparr>reconnect := False\<rparr>\<rparr>) of (p, m1) \<Rightarrow>
      state (fire (sock_close 0) (fire (sock_error 0) m1)) = disconnected \<and>
      reconnectTimer (fire (sock_close 0) (fire (sock_error 0) m1)) = None) \<and>
   ctor_error (m_init\<lparr>ctor_error := Some ''SyntaxError''\<rparr>) = Some ''SyntaxError'' \<and>
   (case connect (m_init\<lparr>ctor_error := Some ''SyntaxError''\<rparr>) of (p, m1) \<Rightarrow>
      promises m1 ! p = Some (Rejected ''SyntaxError'') \<and> state m1 = disconnected \<and>
      sockets m1 = [])"
proof -
  let ?n = "m_init\<lparr>options := DEFAULT_WS_OPTIONS\<lparr>reconnect := False\<rparr>\<rparr>"
  let ?k = "m_init\<lparr>ctor_error := Some ''SyntaxError''\<rparr>"
  have i: "state m_init \<noteq> connected" "state m_init \<noteq> connecting" "ctor_error m_init = None"
    "reconnect (options m_init)" "length (sockets m_init) = 0" "length (timers m_init) = 0"
    "backoff (options m_init) (reconnectAttempts m_init) = 1000"
    by (simp_all add: example_states DEFAULT_WS_OPTIONS_def backoff_def)
  have j: "state ?n \<noteq> connected" "state ?n \<noteq> connecting" "ctor_error ?n = None"
    "\<not> reconnect (options ?n)" "length (sockets ?n) = 0"
    by (simp_all add: example_states)
  have k: "state ?k \<noteq> connected" "state ?k \<noteq> connecting" "ctor_error ?k = Some ''SyntaxError''"
    "sockets ?k = []"
    by (simp_all add: example_states)
  have a: "case connect m_init of (p, m1) \<Rightarrow>
      promises (fire (sock_error 0) m1) ! p = Some (Rejected ''WebSocket connection failed'') \<and>
      state (fire (sock_close 0) (fire (sock_error 0) m1)) = reconnecting \<and>
      timers (fire (sock_close 0) (fire (sock_error 0) m1)) ! 0 =
        \<lparr>callback = reconnect_cb, delay = 1000, active = True\<rparr>"
    using connect_failure [OF i(1,2), of "''x''"] i
    by (simp add: Let_def split: prod.splits del: fire.simps)
  have b: "case connect ?n of (p, m1) \<Rightarrow>
      state (fire (sock_close 0) (fire (sock_error 0) m1)) = disconnected \<and>
      reconnectTimer (fire (sock_close 0) (fire (sock_error 0) m1)) = None"
    using connect_failure [OF j(1,2), of "''x''"] j
    by (simp add: Let_def split: prod.splits del: fire.simps)
  have c: "case connect ?k of (p, m1) \<Rightarrow>
      promises m1 ! p = Some (Rejected ''SyntaxError'') \<and> state m1 = disconnected \<and>
      sockets m1 = []"
    using connect_failure [OF k(1,2), of "''SyntaxError''"] k
    by (simp add: Let_def split: prod.splits del: fire.simps)
  show ?thesis using i(1-4) j(4) k(3) a b c by blast
qed

text \<open>
  C4, as the claim states it, fails: with the default options, a caller's \<^verbatim>\<open>connect()\<close>
  whose socket reports an error and closes before opening ends in state reconnecting with
  a retry scheduled after 1000 ms, and when that timer fires a second socket is
  constructed.
\<close>

theorem connect_failure_counterexample:
  "m_failed = run [op_connect, op_event (sock_error 0), op_event (sock_close 0)] m_init \<and>
   state m_failed = reconnecting \<and>
   reconnectTimer m_failed = Some 0 \<and>
   timers m_failed = [\<lparr>callback = reconnect_cb, delay = 1000, active = True\<rparr>] \<and>
   promises m_failed = [Some (Rejected ''WebSocket connection failed'')] \<and>
   state (fire (timer_fire 0) m_failed) = connecting \<and>
   length (sockets (fire (timer_fire 0) m_failed)) = 2"
proof -
  have c: "connect m_init = (0, m_connecting)"
    by (simp add: example_states connect_def prim_defs Let_def)
  have f: "m_failed =
    \<lparr>ws = None, url = ''ws://localhost:8585'', options = DEFAULT_WS_OPTIONS,
      state = reconnecting, reconnectAttempts = 0, reconnectTimer = Some 0, pingTimer = None,
      pendingRequests = [], intentionalClose = False,
      sockets = [\<lparr>ws_url = ''ws://localhost:8585'', readyState = CLOSED, onOpen = None,
                  onError = None, sent = []\<rparr>],
      ctor_error = None,
      timers = [\<lparr>callback = reconnect_cb, delay = 1000, active = True\<rparr>],
      promises = [Some (Rejected ''WebSocket connection failed'')],
      published = [ev_statechange connecting, ev_error ''WebSocket error'', ev_close,
                   ev_statechange reconnecting],
      console = []\<rparr>"
    by (simp add: m_failed_def run_def example_states onError_cb_def handleError_def
        handleClose_def cleanup_eq scheduleReconnect_def backoff_def cancel_opt_def
        cancel_all_def reject_all_def close_current_def DEFAULT_WS_OPTIONS_def prim_defs Let_def)
  have r: "m_failed = run [op_connect, op_event (sock_error 0), op_event (sock_close 0)] m_init"
    by (simp add: m_failed_def run_def c)
  have t: "state (fire (timer_fire 0) m_failed) = connecting \<and>
           length (sockets (fire (timer_fire 0) m_failed)) = 2"
    by (simp add: f connect_def prim_defs cancel_def Let_def)
  have v: "state m_failed = reconnecting \<and>
           reconnectTimer m_failed = Some 0 \<and>
           timers m_failed = [\<lparr>callback = reconnect_cb, delay = 1000, active = True\<rparr>] \<and>
           promises m_failed = [Some (Rejected ''WebSocket connection failed'')]"
    by (simp add: f)
  show ?thesis using r t v by blast
qed


lemma cancel_Nil [simp]: "cancel h [] = []"
  by (simp add: cancel_def)














declare fire.simps [simp del]

lemma cancel_nth:
  "k < length ts \<Longrightarrow> cancel h ts ! k = (if k = h then (ts ! k)\<lparr>active := False\<rparr> else ts ! k)"
  by (simp add: cancel_def)

lemma cancel_nth_fields:
  "k < length ts \<Longrightarrow> callback (cancel h ts ! k) = callback (ts ! k)"
  "k < length ts \<Longrightarrow> delay (cancel h ts ! k) = delay (ts ! k)"
  "k < length ts \<Longrightarrow> active (cancel h ts ! k) = (active (ts ! k) \<and> k \<noteq> h)"
  by (simp_all add: cancel_nth)

lemma cancel_opt_nth_fields:
  "k < length ts \<Longrightarrow> callback (cancel_opt ho ts ! k) = callback (ts ! k)"
  "k < length ts \<Longrightarrow> delay (cancel_opt ho ts ! k) = delay (ts ! k)"
  "k < length ts \<Longrightarrow> active (cancel_opt ho ts ! k) = (active (ts ! k) \<and> ho \<noteq> Some k)"
  by (cases ho; auto simp: cancel_opt_def cancel_nth_fields)+

lemma cancel_all_nth_fields:
  "k < length ts \<Longrightarrow> callback (cancel_all hs ts ! k) = callback (ts ! k)"
  "k < length ts \<Longrightarrow> delay (cancel_all hs ts ! k) = delay (ts ! k)"
  "k < length ts \<Longrightarrow> active (cancel_all hs ts ! k) = (active (ts ! k) \<and> k \<notin> set hs)"
  unfolding cancel_all_def
  by (induction hs arbitrary: ts; auto simp: cancel_nth_fields)+

lemma reject_all_nth:
  "p < length ps \<Longrightarrow>
   reject_all err qs ps ! p =
     (if ps ! p = None \<and> p \<in> set qs then Some (Rejected err) else ps ! p)"
  unfolding reject_all_def
  by (induction qs arbitrary: ps) (auto simp: settle_in_def nth_list_update)

lemma no_retry_timer_nth:
  "no_retry_timer ts \<longleftrightarrow> (\<forall>k < length ts. callback (ts ! k) = reconnect_cb \<longrightarrow> \<not> active (ts ! k))"
  by (simp add: no_retry_timer_def list_all_length)

lemma no_retry_cancel [simp]:
  "no_retry_timer ts \<Longrightarrow> no_retry_timer (cancel h ts)"
  "no_retry_timer ts \<Longrightarrow> no_retry_timer (cancel_opt ho ts)"
  "no_retry_timer ts \<Longrightarrow> no_retry_timer (cancel_all hs ts)"
  by (simp_all add: no_retry_timer_nth cancel_nth_fields cancel_opt_nth_fields cancel_all_nth_fields)

lemma no_retry_append [simp]:
  "no_retry_timer (ts @ [t]) \<longleftrightarrow> no_retry_timer ts \<and> (callback t = reconnect_cb \<longrightarrow> \<not> active t)"
  by (auto simp: no_retry_timer_def)


lemma disconnect_eq:
  "disconnect m =
     (cleanup m)\<lparr>intentionalClose := True, state := disconnected,
       published := published m @
         (if state m = disconnected then [] else [ev_statechange disconnected]) @ [ev_close]\<rparr>"
  by (simp add: disconnect_def cleanup_eq setState_def ws_emit_def)


lemma delays_append:
  "map delay (filter (\<lambda>t. callback t = c) (ts @ [t])) =
     map delay (filter (\<lambda>t. callback t = c) ts) @ (if callback t = c then [delay t] else [])"
  by simp

















subsection \<open>Invariants of the states a transport can reach\<close>

text \<open>
  Both conditions used below hold initially and are kept by every call and every event:
  the only reconnect timer that may be running is the one in \<^verbatim>\<open>reconnectTimer\<close>, and the
  promise table, the pending table, the timers and the socket listeners fit together.
\<close>

lemma single_retry_nth:
  "single_retry_timer m \<longleftrightarrow>
     (\<forall>k < length (timers m). callback (timers m ! k) = reconnect_cb \<and> active (timers m ! k) \<longrightarrow>
        reconnectTimer m = Some k)"
  by (auto simp: single_retry_timer_def no_retry_timer_nth cancel_opt_nth_fields)


lemma single_retry_update_socket [simp]:
  "single_retry_timer (update_socket i f m) = single_retry_timer m"
  by (simp add: single_retry_nth update_socket_def)











lemma settle_in_nth:
  "q < length ps \<Longrightarrow>
   settle_in p out ps ! q = (if q = p \<and> ps ! p = None then Some out else ps ! q)"
  by (auto simp: settle_in_def)

lemma request_timer_ok_iff:
  "request_timer_ok ps pend t \<longleftrightarrow>
     (\<forall>ident q p. callback t = request_timeout ident q p \<and> active t \<longrightarrow>
         p < length ps \<and> (\<forall>e \<in> set pend. settles (snd e) = p \<longrightarrow> fst e = ident))"
  by (cases "callback t") (auto simp: request_timer_ok_def list_all_iff)

lemma listener_ok_iff:
  "listener_ok ps pend l \<longleftrightarrow>
     (\<forall>p. l = Some p \<longrightarrow> p < length ps \<and> (\<forall>e \<in> set pend. settles (snd e) \<noteq> p))"
  by (cases l) (auto simp: listener_ok_def list_all_iff)

lemma wf_parts_iff:
  "wf_parts ps pend ts socks \<longleftrightarrow>
     (\<forall>e \<in> set pend. settles (snd e) < length ps \<and> ps ! settles (snd e) = None) \<and>
     distinct (map (\<lambda>e. settles (snd e)) pend) \<and>
     (\<forall>t \<in> set ts. \<forall>ident q p. callback t = request_timeout ident q p \<and> active t \<longrightarrow>
         p < length ps \<and> (\<forall>e \<in> set pend. settles (snd e) = p \<longrightarrow> fst e = ident)) \<and>
     (\<forall>s \<in> set socks. \<forall>p. onOpen s = Some p \<or> onError s = Some p \<longrightarrow>
         p < length ps \<and> (\<forall>e \<in> set pend. settles (snd e) \<noteq> p))"
proof -
  have "(\<forall>s \<in> set socks. listener_ok ps pend (onOpen s) \<and> listener_ok ps pend (onError s)) \<longleftrightarrow>
        (\<forall>s \<in> set socks. \<forall>p. onOpen s = Some p \<or> onError s = Some p \<longrightarrow>
         p < length ps \<and> (\<forall>e \<in> set pend. settles (snd e) \<noteq> p))"
    unfolding listener_ok_iff by blast
  then show ?thesis
    unfolding wf_parts_def list_all_iff request_timer_ok_iff by simp
qed

lemma set_cancel: "t \<in> set (cancel h ts) \<Longrightarrow> t \<in> set ts \<or> \<not> active t"
  unfolding cancel_def by (auto dest!: set_update_subset_insert[THEN subsetD])

lemma set_cancel_opt: "t \<in> set (cancel_opt ho ts) \<Longrightarrow> t \<in> set ts \<or> \<not> active t"
  by (cases ho) (auto simp: cancel_opt_def dest: set_cancel)

lemma set_cancel_all: "t \<in> set (cancel_all hs ts) \<Longrightarrow> t \<in> set ts \<or> \<not> active t"
  unfolding cancel_all_def
  by (induction hs arbitrary: ts) (auto dest: set_cancel)

lemma wf_new_promise: "wf_parts ps pend ts socks \<Longrightarrow> wf_parts (ps @ [x]) pend ts socks"
  by (auto simp: wf_parts_iff nth_append less_Suc_eq)

lemma wf_cancel:
  "wf_parts ps pend ts socks \<Longrightarrow> wf_parts ps pend (cancel h ts) socks"
  "wf_parts ps pend ts socks \<Longrightarrow> wf_parts ps pend (cancel_opt ho ts) socks"
  "wf_parts ps pend ts socks \<Longrightarrow> wf_parts ps pend (cancel_all hs ts) socks"
  by (simp_all add: wf_parts_iff) (blast dest: set_cancel set_cancel_opt set_cancel_all)+

lemma wf_new_timer:
  "wf_parts ps pend ts socks \<Longrightarrow> (\<forall>ident q p. callback t \<noteq> request_timeout ident q p) \<or> \<not> active t \<Longrightarrow>
   wf_parts ps pend (ts @ [t]) socks"
  by (auto simp: wf_parts_iff)

lemma wf_settle_other:
  "wf_parts ps pend ts socks \<Longrightarrow> \<forall>e \<in> set pend. settles (snd e) \<noteq> p \<Longrightarrow>
   wf_parts (settle_in p out ps) pend ts socks"
  by (auto simp: wf_parts_iff settle_in_nth)

lemma set_delete: "set (AList.delete k al) = {e \<in> set al. fst e \<noteq> k}"
  by (auto simp: AList.delete_eq)

lemma distinct_map_delete:
  "distinct (map f al) \<Longrightarrow> distinct (map f (AList.delete k al))"
  by (simp add: AList.delete_eq distinct_map_filter)

lemma wf_delete:
  assumes w: "wf_parts ps pend ts socks"
  shows "wf_parts ps (AList.delete k pend) ts socks"
proof -
  have sub: "set (AList.delete k pend) \<subseteq> set pend" by (auto simp: set_delete)
  have d: "distinct (map (\<lambda>e. settles (snd e)) (AList.delete k pend))"
    using w by (simp add: wf_parts_iff distinct_map_delete)
  show ?thesis
    unfolding wf_parts_iff
  proof (intro conjI)
    show "\<forall>e\<in>set (AList.delete k pend). settles (snd e) < length ps \<and> ps ! settles (snd e) = None"
      using w sub unfolding wf_parts_iff by blast
    show "distinct (map (\<lambda>e. settles (snd e)) (AList.delete k pend))" by (rule d)
    show "\<forall>t\<in>set ts. \<forall>ident q p. callback t = request_timeout ident q p \<and> active t \<longrightarrow>
       p < length ps \<and> (\<forall>e\<in>set (AList.delete k pend). settles (snd e) = p \<longrightarrow> fst e = ident)"
      using w sub unfolding wf_parts_iff by blast
    show "\<forall>s\<in>set socks. \<forall>p. onOpen s = Some p \<or> onError s = Some p \<longrightarrow>
       p < length ps \<and> (\<forall>e\<in>set (AList.delete k pend). settles (snd e) \<noteq> p)"
      using w sub unfolding wf_parts_iff by blast
  qed
qed

lemma wf_settle_delete:
  assumes "wf_parts ps pend ts socks" "\<forall>e \<in> set pend. settles (snd e) = p \<longrightarrow> fst e = k"
  shows "wf_parts (settle_in p out ps) (AList.delete k pend) ts socks"
proof -
  have "wf_parts ps (AList.delete k pend) ts socks" using assms(1) by (rule wf_delete)
  moreover have "\<forall>e \<in> set (AList.delete k pend). settles (snd e) \<noteq> p"
    using assms(2) by (auto simp: set_delete)
  ultimately show ?thesis by (rule wf_settle_other)
qed

lemma set_update: "set (AList.update k v al) \<subseteq> insert (k, v) (set al)"
  by (induction al) auto

lemma distinct_map_update:
  "distinct (map f al) \<Longrightarrow> \<forall>e \<in> set al. f e \<noteq> f (k, v) \<Longrightarrow> distinct (map f (AList.update k v al))"
proof (induction al)
  case Nil
  then show ?case by simp
next
  case (Cons a al)
  have s: "\<And>x. x \<in> set (AList.update k v al) \<Longrightarrow> x = (k, v) \<or> x \<in> set al"
    using set_update[of k v al] by auto
  have d: "distinct (map f (AList.update k v al))" using Cons by simp
  show ?case
  proof (cases "fst a = k")
    case True
    then show ?thesis using Cons.prems by (cases a) auto
  next
    case False
    have "f a \<notin> f ` set (AList.update k v al)"
    proof
      assume "f a \<in> f ` set (AList.update k v al)"
      then obtain x where x: "x \<in> set (AList.update k v al)" "f a = f x" by auto
      from s[OF x(1)] show False
        using x(2) Cons.prems by auto
    qed
    then show ?thesis using False d by (cases a) auto
  qed
qed

lemma wf_request:
  assumes w: "wf_parts ps pend ts socks"
  shows "wf_parts (ps @ [None]) (AList.update k \<lparr>settles = length ps, timeout = h\<rparr> pend)
           (ts @ [\<lparr>callback = request_timeout k q (length ps), delay = d, active = True\<rparr>]) socks"
proof -
  let ?v = "\<lparr>settles = length ps, timeout = h\<rparr>"
  let ?pend = "AList.update k ?v pend"
  have s: "\<And>x. x \<in> set ?pend \<Longrightarrow> x = (k, ?v) \<or> x \<in> set pend"
    using set_update[of k ?v pend] by auto
  have w1: "\<forall>e \<in> set pend. settles (snd e) < length ps \<and> ps ! settles (snd e) = None"
    and w2: "distinct (map (\<lambda>e. settles (snd e)) pend)"
    and w3: "\<forall>t \<in> set ts. \<forall>ident q p. callback t = request_timeout ident q p \<and> active t \<longrightarrow>
         p < length ps \<and> (\<forall>e \<in> set pend. settles (snd e) = p \<longrightarrow> fst e = ident)"
    and w4: "\<forall>s \<in> set socks. \<forall>p. onOpen s = Some p \<or> onError s = Some p \<longrightarrow>
         p < length ps \<and> (\<forall>e \<in> set pend. settles (snd e) \<noteq> p)"
    using w unfolding wf_parts_iff by blast+
  have d: "distinct (map (\<lambda>e. settles (snd e)) ?pend)"
    using w2 w1 by (intro distinct_map_update) auto
  show ?thesis
    unfolding wf_parts_iff
  proof (intro conjI)
    show "\<forall>e\<in>set ?pend. settles (snd e) < length (ps @ [None]) \<and> (ps @ [None]) ! settles (snd e) = None"
      using w1 by (auto simp: nth_append dest!: s)
    show "distinct (map (\<lambda>e. settles (snd e)) ?pend)" by (rule d)
    show "\<forall>t\<in>set (ts @ [\<lparr>callback = request_timeout k q (length ps), delay = d, active = True\<rparr>]).
       \<forall>ident q p. callback t = request_timeout ident q p \<and> active t \<longrightarrow>
          p < length (ps @ [None]) \<and> (\<forall>e\<in>set ?pend. settles (snd e) = p \<longrightarrow> fst e = ident)"
    proof (intro ballI allI impI)
      fix t ident q' p
      assume t: "t \<in> set (ts @ [\<lparr>callback = request_timeout k q (length ps), delay = d, active = True\<rparr>])"
        and c: "callback t = request_timeout ident q' p \<and> active t"
      show "p < length (ps @ [None]) \<and> (\<forall>e\<in>set ?pend. settles (snd e) = p \<longrightarrow> fst e = ident)"
      proof (cases "t \<in> set ts")
        case True
        then have a: "p < length ps" "\<forall>e \<in> set pend. settles (snd e) = p \<longrightarrow> fst e = ident"
          using w3 c by blast+
        show ?thesis using a by (auto dest!: s)
      next
        case False
        then have "ident = k" "p = length ps" using t c by auto
        then show ?thesis using w1 by (auto dest!: s)
      qed
    qed
    show "\<forall>s\<in>set socks. \<forall>p. onOpen s = Some p \<or> onError s = Some p \<longrightarrow>
       p < length (ps @ [None]) \<and> (\<forall>e\<in>set ?pend. settles (snd e) \<noteq> p)"
    proof (intro ballI allI impI)
      fix sk p assume sk: "sk \<in> set socks" "onOpen sk = Some p \<or> onError sk = Some p"
      then have a: "p < length ps" "\<forall>e \<in> set pend. settles (snd e) \<noteq> p" using w4 by blast+
      show "p < length (ps @ [None]) \<and> (\<forall>e\<in>set ?pend. settles (snd e) \<noteq> p)"
        using a by (auto dest!: s)
    qed
  qed
qed

lemma wf_empty_pending:
  "wf_parts ps pend ts socks \<Longrightarrow> length ps' = length ps \<Longrightarrow>
   (\<forall>t \<in> set ts'. t \<in> set ts \<or> \<not> active t) \<Longrightarrow>
   (\<forall>s \<in> set socks'. \<exists>s0 \<in> set socks. onOpen s = onOpen s0 \<and> onError s = onError s0) \<Longrightarrow>
   wf_parts ps' [] ts' socks'"
  unfolding wf_parts_iff by (simp; metis)

lemma wf_sockets:
  "wf_parts ps pend ts socks \<Longrightarrow>
   (\<forall>s \<in> set socks'. \<forall>p. onOpen s = Some p \<or> onError s = Some p \<longrightarrow>
       (\<exists>s0 \<in> set socks. onOpen s0 = Some p \<or> onError s0 = Some p)) \<Longrightarrow>
   wf_parts ps pend ts socks'"
  unfolding wf_parts_iff by blast

lemma wf_new_socket:
  "wf_parts ps pend ts socks \<Longrightarrow>
   wf_parts (ps @ [None]) pend ts
     (socks @ [\<lparr>ws_url = u, readyState = r, onOpen = Some (length ps), onError = Some (length ps), sent = []\<rparr>])"
  unfolding wf_parts_iff by (auto simp: nth_append less_Suc_eq)


lemma wf_new: "wf_transport (new_WebSocketManager u ce opts)"
  by (simp add: wf_transport_def wf_parts_def new_WebSocketManager_def)

lemma connect_wf: "wf_transport m \<Longrightarrow> wf_transport (snd (connect m))"
  by (auto simp: wf_transport_def connect_def prim_defs Let_def
      intro!: wf_new_promise wf_new_socket split: option.splits)

lemma set_close_current:
  "s \<in> set (close_current w socks) \<Longrightarrow>
   \<exists>s0 \<in> set socks. onOpen s = onOpen s0 \<and> onError s = onError s0"
proof (cases w)
  case None
  assume "s \<in> set (close_current w socks)"
  then show ?thesis using None by (auto simp: close_current_def)
next
  case (Some i)
  assume a: "s \<in> set (close_current w socks)"
  show ?thesis
  proof (cases "i < length socks \<and> (readyState (socks ! i) = OPEN \<or> readyState (socks ! i) = CONNECTING)")
    case True
    then have "s \<in> insert ((socks ! i)\<lparr>readyState := CLOSING\<rparr>) (set socks)"
      using a Some set_update_subset_insert[of socks i] by (auto simp: close_current_def)
    then show ?thesis using True by (auto intro: bexI[of _ "socks ! i"])
  next
    case False
    then show ?thesis using a Some by (auto simp: close_current_def)
  qed
qed

lemma cleanup_wf: "wf_transport m \<Longrightarrow> wf_transport (cleanup m)"
  unfolding wf_transport_def cleanup_eq
  by (simp, erule wf_empty_pending)
     (auto dest: set_cancel_all set_cancel_opt set_close_current)

lemma disconnect_wf: "wf_transport m \<Longrightarrow> wf_transport (disconnect m)"
  using cleanup_wf[of m] by (simp add: disconnect_eq wf_transport_def)

lemma handleClose_wf: "wf_transport m \<Longrightarrow> wf_transport (handleClose m)"
  using cleanup_wf[of m]
  by (auto simp: handleClose_def scheduleReconnect_def ws_emit_def setState_def setTimeout_def
      wf_transport_def Let_def cleanup_eq intro!: wf_new_timer)

lemma set_update_nth:
  "s \<in> set (xs[i := f (xs ! i)]) \<Longrightarrow> s \<in> set xs \<or> (i < length xs \<and> s = f (xs ! i))"
proof (cases "i < length xs")
  case True
  assume "s \<in> set (xs[i := f (xs ! i)])"
  then show ?thesis using True set_update_subset_insert[of xs i "f (xs ! i)"] by auto
next
  case False
  assume "s \<in> set (xs[i := f (xs ! i)])"
  then show ?thesis using False by (simp add: list_update_beyond)
qed

lemma wf_update_socket:
  assumes "wf_transport m"
    and "\<And>s p. onOpen (f s) = Some p \<Longrightarrow> onOpen s = Some p"
    and "\<And>s p. onError (f s) = Some p \<Longrightarrow> onError s = Some p"
  shows "wf_transport (update_socket i f m)"
proof -
  have "wf_parts (promises m) (pendingRequests m) (timers m) ((sockets m)[i := f (sockets m ! i)])"
  proof (rule wf_sockets)
    show "wf_parts (promises m) (pendingRequests m) (timers m) (sockets m)"
      using assms(1) by (simp add: wf_transport_def)
    show "\<forall>s \<in> set ((sockets m)[i := f (sockets m ! i)]). \<forall>p. onOpen s = Some p \<or> onError s = Some p \<longrightarrow>
       (\<exists>s0 \<in> set (sockets m). onOpen s0 = Some p \<or> onError s0 = Some p)"
    proof (intro ballI allI impI)
      fix s p assume s: "s \<in> set ((sockets m)[i := f (sockets m ! i)])"
        and l: "onOpen s = Some p \<or> onError s = Some p"
      have "s \<in> set (sockets m) \<or> (i < length (sockets m) \<and> s = f (sockets m ! i))"
        using s by (rule set_update_nth)
      then show "\<exists>s0 \<in> set (sockets m). onOpen s0 = Some p \<or> onError s0 = Some p"
      proof
        assume "s \<in> set (sockets m)" then show ?thesis using l by blast
      next
        assume a: "i < length (sockets m) \<and> s = f (sockets m ! i)"
        then have "onOpen (sockets m ! i) = Some p \<or> onError (sockets m ! i) = Some p"
          using l assms(2,3) by blast
        then show ?thesis using a nth_mem by blast
      qed
    qed
  qed
  then show ?thesis by (simp add: wf_transport_def update_socket_def)
qed

lemma send_wf: "send msg m = Inr m1 \<Longrightarrow> wf_transport m \<Longrightarrow> wf_transport m1"
  by (auto simp: send_def split: option.splits if_splits intro!: wf_update_socket)

lemma wf_transport_cong:
  "promises m1 = promises m \<Longrightarrow> pendingRequests m1 = pendingRequests m \<Longrightarrow>
   timers m1 = timers m \<Longrightarrow> sockets m1 = sockets m \<Longrightarrow> wf_transport m1 = wf_transport m"
  by (simp add: wf_transport_def)

lemma request_wf:
  assumes w: "wf_transport m"
  shows "wf_transport (snd (request ident q t m))"
proof -
  let ?p = "length (promises m)"
  let ?h = "length (timers m)"
  let ?m2 = "m\<lparr>promises := promises m @ [None],
               timers := timers m @ [\<lparr>callback = request_timeout ident q ?p, delay = t, active = True\<rparr>],
               pendingRequests := AList.update ident \<lparr>settles = ?p, timeout = ?h\<rparr> (pendingRequests m)\<rparr>"
  have w2: "wf_transport ?m2"
    using w wf_request[of "promises m" "pendingRequests m" "timers m" "sockets m" ident ?h q t]
    by (simp add: wf_transport_def)
  show ?thesis
  proof (cases "send (query ident q) ?m2")
    case (Inr m3)
    then have "snd (request ident q t m) = m3"
      by (simp add: request_def new_promise_def setTimeout_def Let_def)
    then show ?thesis using send_wf[OF Inr w2] by simp
  next
    case (Inl err)
    then have r: "snd (request ident q t m) =
        settle ?p (Rejected err) ((clearTimeout ?h ?m2)\<lparr>pendingRequests := AList.delete ident (pendingRequests ?m2)\<rparr>)"
      by (simp add: request_def new_promise_def setTimeout_def Let_def)
    have "wf_parts (settle_in ?p (Rejected err) (promises ?m2))
            (AList.delete ident (pendingRequests ?m2)) (cancel ?h (timers ?m2)) (sockets ?m2)"
    proof (rule wf_settle_delete)
      show "wf_parts (promises ?m2) (pendingRequests ?m2) (cancel ?h (timers ?m2)) (sockets ?m2)"
        using w2 by (simp add: wf_transport_def wf_cancel del: One_nat_def)
      have "\<And>x. x \<in> set (pendingRequests ?m2) \<Longrightarrow>
              x = (ident, \<lparr>settles = ?p, timeout = ?h\<rparr>) \<or> x \<in> set (pendingRequests m)"
        using set_update[of ident "\<lparr>settles = ?p, timeout = ?h\<rparr>" "pendingRequests m"] by auto
      moreover have "\<forall>e \<in> set (pendingRequests m). settles (snd e) < ?p"
        using w by (simp add: wf_transport_def wf_parts_iff)
      ultimately show "\<forall>e\<in>set (pendingRequests ?m2). settles (snd e) = ?p \<longrightarrow> fst e = ident"
        by fastforce
    qed
    then show ?thesis unfolding r by (simp add: wf_transport_def settle_def clearTimeout_def)
  qed
qed

lemma distinct_map_eq:
  "distinct (map f xs) \<Longrightarrow> x \<in> set xs \<Longrightarrow> y \<in> set xs \<Longrightarrow> f x = f y \<Longrightarrow> x = y"
  by (simp add: distinct_map inj_on_def)

lemma wf_settle_matched:
  assumes w: "wf_transport m" and f: "map_of (pendingRequests m) ident = Some pr"
  shows "wf_transport (settle (settles pr) out
           ((clearTimeout (timeout pr) m)\<lparr>pendingRequests := AList.delete ident (pendingRequests m)\<rparr>))"
proof -
  have mem: "(ident, pr) \<in> set (pendingRequests m)" using f by (rule map_of_SomeD)
  have d: "distinct (map (\<lambda>e. settles (snd e)) (pendingRequests m))"
    using w by (simp add: wf_transport_def wf_parts_iff)
  have k: "\<forall>e \<in> set (pendingRequests m). settles (snd e) = settles pr \<longrightarrow> fst e = ident"
  proof (intro ballI impI)
    fix e assume e: "e \<in> set (pendingRequests m)" "settles (snd e) = settles pr"
    have "e = (ident, pr)" using distinct_map_eq[OF d e(1) mem] e(2) by simp
    then show "fst e = ident" by simp
  qed
  have "wf_parts (settle_in (settles pr) out (promises m)) (AList.delete ident (pendingRequests m))
          (cancel (timeout pr) (timers m)) (sockets m)"
    using w k by (intro wf_settle_delete) (simp_all add: wf_transport_def wf_cancel)
  then show ?thesis by (simp add: wf_transport_def settle_def clearTimeout_def)
qed

lemma handleMessage_wf: "wf_transport m \<Longrightarrow> wf_transport (handleMessage d m)"
  by (auto simp: handleMessage_def forward_def ws_emit_def wf_settle_matched
      split: MessageData.splits ServerMessage.splits option.splits)
     (simp_all add: wf_transport_def)


lemma wf_ws_emit [simp]: "wf_transport (ws_emit e m) = wf_transport m"
  by (simp add: wf_transport_def ws_emit_def)

lemma wf_setState [simp]: "wf_transport (setState s m) = wf_transport m"
  by (simp add: wf_transport_def setState_def ws_emit_def)

lemma wf_startPing: "wf_transport m \<Longrightarrow> wf_transport (startPing m)"
  by (simp add: startPing_eq wf_transport_def wf_cancel wf_new_timer)

lemma wf_settle:
  "wf_transport m \<Longrightarrow> \<forall>e \<in> set (pendingRequests m). settles (snd e) \<noteq> p \<Longrightarrow>
   wf_transport (settle p out m)"
  by (simp add: wf_transport_def settle_def wf_settle_other)

lemma listener_not_pending:
  assumes "wf_transport m" "i < length (sockets m)"
    and "onOpen (sockets m ! i) = Some p \<or> onError (sockets m ! i) = Some p"
  shows "\<forall>e \<in> set (pendingRequests m). settles (snd e) \<noteq> p"
proof -
  have "sockets m ! i \<in> set (sockets m)" using assms(2) by simp
  then show ?thesis using assms(1,3) unfolding wf_transport_def wf_parts_iff by blast
qed

lemma onOpen_cb_wf:
  assumes w: "wf_transport m" and np: "\<forall>e \<in> set (pendingRequests m). settles (snd e) \<noteq> p"
  shows "wf_transport (onOpen_cb p m)"
proof -
  define m1 where "m1 = (case ws m of
                  None \<Rightarrow> m
                | Some j \<Rightarrow> update_socket j (\<lambda>s. if onError s = Some p then s\<lparr>onError := None\<rparr> else s) m)"
  have w1: "wf_transport m1"
    unfolding m1_def using w by (auto split: option.splits if_splits intro!: wf_update_socket)
  have p1: "pendingRequests m1 = pendingRequests m"
    by (simp add: m1_def update_socket_def split: option.splits)
  let ?m5 = "ws_emit ev_open (startPing (setState connected (m1\<lparr>reconnectAttempts := 0\<rparr>)))"
  have "wf_transport (m1\<lparr>reconnectAttempts := 0\<rparr>)" using w1 by (simp add: wf_transport_def)
  then have w5: "wf_transport ?m5" by (simp add: wf_startPing)
  have p5: "pendingRequests ?m5 = pendingRequests m"
    by (simp add: ws_emit_def startPing_eq setState_def p1)
  have "onOpen_cb p m = settle p (Resolved None) ?m5"
    by (simp add: onOpen_cb_def m1_def Let_def)
  then show ?thesis using wf_settle[OF w5, of p] np p5 by simp
qed

lemma onError_cb_wf:
  assumes w: "wf_transport m" and np: "\<forall>e \<in> set (pendingRequests m). settles (snd e) \<noteq> p"
  shows "wf_transport (onError_cb p m)"
proof -
  define m1 where "m1 = (case ws m of
                  None \<Rightarrow> m
                | Some j \<Rightarrow> update_socket j (\<lambda>s. if onOpen s = Some p then s\<lparr>onOpen := None\<rparr> else s) m)"
  have w1: "wf_transport m1"
    unfolding m1_def using w by (auto split: option.splits if_splits intro!: wf_update_socket)
  have p1: "pendingRequests m1 = pendingRequests m"
    by (simp add: m1_def update_socket_def split: option.splits)
  have "onError_cb p m = settle p (Rejected ''WebSocket connection failed'') m1"
    by (simp add: onError_cb_def m1_def Let_def)
  then show ?thesis using wf_settle[OF w1, of p] np p1 by simp
qed

lemma timer_fire_wf:
  assumes w: "wf_transport m"
  shows "wf_transport (fire (timer_fire h) m)"
proof (cases "h < length (timers m) \<and> active (timers m ! h)")
  case False
  then show ?thesis using w by (auto simp: fire.simps)
next
  case True
  then have mem: "timers m ! h \<in> set (timers m)" by simp
  have wc: "wf_transport (clearTimeout h m)"
    using w by (simp add: wf_transport_def clearTimeout_def wf_cancel)
  show ?thesis
  proof (cases "callback (timers m ! h)")
    case ping_cb
    then have "fire (timer_fire h) m = run_callback ping_cb m" using True by (simp add: fire.simps)
    then show ?thesis using w send_wf[of ping m]
      by (auto split: option.splits sum.splits)
  next
    case reconnect_cb
    then have f: "fire (timer_fire h) m =
        snd (connect ((clearTimeout h m)\<lparr>reconnectTimer := None,
               reconnectAttempts := Suc (reconnectAttempts (clearTimeout h m))\<rparr>))"
      using True by (simp add: fire.simps)
    have "wf_transport ((clearTimeout h m)\<lparr>reconnectTimer := None,
               reconnectAttempts := Suc (reconnectAttempts (clearTimeout h m))\<rparr>)"
      using wc by (simp add: wf_transport_def)
    then show ?thesis unfolding f by (rule connect_wf)
  next
    case (request_timeout ident q p)
    then have f: "fire (timer_fire h) m =
        settle p (Rejected (''Request timeout: '' @ query_name q))
          ((clearTimeout h m)\<lparr>pendingRequests := AList.delete ident (pendingRequests (clearTimeout h m))\<rparr>)"
      using True by (simp add: fire.simps)
    have k: "\<forall>e \<in> set (pendingRequests m). settles (snd e) = p \<longrightarrow> fst e = ident"
      using w mem request_timeout True unfolding wf_transport_def wf_parts_iff by blast
    have "wf_parts (settle_in p (Rejected (''Request timeout: '' @ query_name q)) (promises m))
            (AList.delete ident (pendingRequests m)) (cancel h (timers m)) (sockets m)"
      using w k by (intro wf_settle_delete) (simp_all add: wf_transport_def wf_cancel)
    then show ?thesis unfolding f by (simp add: wf_transport_def settle_def clearTimeout_def)
  qed
qed

lemma sock_open_wf:
  assumes w: "wf_transport m"
  shows "wf_transport (fire (sock_open i) m)"
proof (cases "readyState_of m i = Some CONNECTING")
  case False
  then show ?thesis using w by (simp add: fire.simps)
next
  case True
  then have i: "i < length (sockets m)" by (simp add: readyState_of_def split: if_splits)
  define m1 where "m1 = update_socket i (\<lambda>s. s\<lparr>readyState := OPEN\<rparr>) m"
  have w1: "wf_transport m1" unfolding m1_def using w by (auto intro!: wf_update_socket)
  have i1: "i < length (sockets m1)" using i by (simp add: m1_def update_socket_def)
  show ?thesis
  proof (cases "onOpen (sockets m1 ! i)")
    case None
    then have "fire (sock_open i) m = m1" using True by (simp add: fire.simps m1_def)
    then show ?thesis using w1 by simp
  next
    case (Some p)
    define m2 where "m2 = update_socket i (\<lambda>s. s\<lparr>onOpen := None\<rparr>) m1"
    have f: "fire (sock_open i) m = onOpen_cb p m2"
      using True Some by (simp add: fire.simps m1_def m2_def)
    have w2: "wf_transport m2" unfolding m2_def using w1 by (auto intro!: wf_update_socket)
    have "\<forall>e \<in> set (pendingRequests m1). settles (snd e) \<noteq> p"
      using listener_not_pending[OF w1 i1] Some by simp
    then have "\<forall>e \<in> set (pendingRequests m2). settles (snd e) \<noteq> p"
      by (simp add: m2_def update_socket_def)
    then show ?thesis unfolding f using w2 by (rule onOpen_cb_wf[rotated])
  qed
qed

lemma sock_error_wf:
  assumes w: "wf_transport m"
  shows "wf_transport (fire (sock_error i) m)"
proof (cases "i < length (sockets m)")
  case False
  then show ?thesis using w by (simp add: fire.simps)
next
  case True
  show ?thesis
  proof (cases "onError (sockets m ! i)")
    case None
    then show ?thesis using True w by (simp add: fire.simps handleError_def)
  next
    case (Some p)
    define m2 where "m2 = update_socket i (\<lambda>s. s\<lparr>onError := None\<rparr>) m"
    have f: "fire (sock_error i) m = handleError (onError_cb p m2)"
      using True Some by (simp add: fire.simps m2_def)
    have w2: "wf_transport m2" unfolding m2_def using w by (auto intro!: wf_update_socket)
    have "\<forall>e \<in> set (pendingRequests m). settles (snd e) \<noteq> p"
      using listener_not_pending[OF w True] Some by simp
    then have "\<forall>e \<in> set (pendingRequests m2). settles (snd e) \<noteq> p"
      by (simp add: m2_def update_socket_def)
    then have "wf_transport (onError_cb p m2)" using w2 by (rule onError_cb_wf[rotated])
    then show ?thesis unfolding f by (simp add: handleError_def)
  qed
qed

lemma fire_wf: "wf_transport m \<Longrightarrow> wf_transport (fire ev m)"
proof (cases ev)
  case (sock_open i)
  assume "wf_transport m" then show ?thesis using sock_open sock_open_wf by simp
next
  case (sock_error i)
  assume "wf_transport m" then show ?thesis using sock_error sock_error_wf by simp
next
  case (sock_close i)
  assume w: "wf_transport m"
  have "wf_transport (update_socket i (\<lambda>s. s\<lparr>readyState := CLOSED\<rparr>) m)"
    using w by (auto intro!: wf_update_socket)
  then show ?thesis using sock_close w by (simp add: fire.simps handleClose_wf)
next
  case (sock_message i d)
  assume "wf_transport m" then show ?thesis using sock_message by (simp add: fire.simps handleMessage_wf)
next
  case (timer_fire h)
  assume "wf_transport m" then show ?thesis using timer_fire timer_fire_wf by simp
qed









section \<open>Properties of the facade\<close>

lemma resolves_settle_in:
  "resolves old (settle_in p out old) q v \<Longrightarrow> q = p \<and> out = Resolved v"
  by (auto simp: resolves_def newly_settled_def settle_in_def nth_list_update split: if_splits)

lemma resolves_reject_all: "\<not> resolves old (reject_all err qs old) q v"
  by (auto simp: resolves_def newly_settled_def reject_all_nth)

lemma resolves_same: "\<not> resolves old old q v"
  by (auto simp: resolves_def newly_settled_def)

lemma resolves_append:
  "resolves old (old @ [x]) q v \<Longrightarrow> q = length old \<and> x = Some (Resolved v)"
  by (auto simp: resolves_def newly_settled_def nth_append split: if_splits)

lemma promises_connect:
  "promises (snd (connect m)) = promises m @ [None] \<or>
   (\<exists>err. promises (snd (connect m)) = promises m @ [Some (Rejected err)]) \<or>
   promises (snd (connect m)) = promises m @ [Some (Resolved None)]"
  by (auto simp: connect_def prim_defs Let_def split: option.splits)

lemma connect_resolves:
  "resolves (promises m) (promises (snd (connect m))) p v \<Longrightarrow> p = length (promises m) \<and> v = None"
  using promises_connect[of m] by (auto dest: resolves_append)

lemma promises_request:
  "promises (snd (request ident q t m)) = promises m @ [None] \<or>
   (\<exists>err. promises (snd (request ident q t m)) = promises m @ [Some (Rejected err)])"
  by (auto simp: request_def new_promise_def setTimeout_def send_frame settle_def settle_in_def
      clearTimeout_def send_def update_socket_def Let_def split: option.splits sum.splits)

lemma request_resolves:
  "\<not> resolves (promises m) (promises (snd (request ident q t m))) p v"
  using promises_request[of ident q t m] by (auto dest: resolves_append)

lemma disconnect_resolves: "\<not> resolves (promises m) (promises (disconnect m)) p v"
  by (simp add: disconnect_eq cleanup_eq resolves_reject_all)

lemma send_promises: "send msg m = Inr m1 \<Longrightarrow> promises m1 = promises m \<and> published m1 = published m"
  by (auto simp: send_def update_socket_def split: option.splits if_splits)

lemma handleClose_promises:
  "promises (handleClose m) =
     reject_all ''WebSocket disconnected'' (map (\<lambda>e. settles (snd e)) (pendingRequests m)) (promises m)"
  using handleClose_reconnects(13)[of m] handleClose_stops(13)[of m] by blast

lemma handleMessage_resolves:
  "resolves (promises m) (promises (handleMessage d m)) p v \<Longrightarrow>
   \<exists>ident rd pr. d = frame (msg_response_ok ident rd) \<and> map_of (pendingRequests m) ident = Some pr \<and>
                 p = settles pr \<and> v = Some (rd_result rd)"
  by (auto simp: handleMessage_def forward_def ws_emit_def settle_def clearTimeout_def resolves_same
      split: MessageData.splits ServerMessage.splits option.splits dest!: resolves_settle_in)

lemma fire_resolves:
  assumes "resolves (promises m) (promises (fire ev m)) p v"
  shows "(\<exists>i. ev = sock_open i \<and> i < length (sockets m) \<and> onOpen (sockets m ! i) = Some p \<and> v = None) \<or>
         (\<exists>h. ev = timer_fire h \<and> p = length (promises m) \<and> v = None) \<or>
         (\<exists>i ident rd pr. ev = sock_message i (frame (msg_response_ok ident rd)) \<and>
              map_of (pendingRequests m) ident = Some pr \<and> p = settles pr \<and> v = Some (rd_result rd))"
proof (cases ev)
  case (sock_open i)
  then show ?thesis
    using assms
    by (auto simp: fire.simps Let_def onOpen_cb_fields update_socket_def readyState_of_def resolves_same
        split: if_splits option.splits dest!: resolves_settle_in)
next
  case (sock_error i)
  then show ?thesis
    using assms
    by (auto simp: fire.simps onError_cb_fields handleError_def ws_emit_def update_socket_def resolves_same
        split: if_splits option.splits dest!: resolves_settle_in)
next
  case (sock_close i)
  then show ?thesis
    using assms
    by (auto simp: fire.simps handleClose_promises update_socket_def resolves_same resolves_reject_all
        split: if_splits)
next
  case (sock_message i d)
  then show ?thesis
    using assms by (auto simp: fire.simps resolves_same split: if_splits dest!: handleMessage_resolves)
next
  case (timer_fire h)
  show ?thesis
  proof (cases "h < length (timers m) \<and> active (timers m ! h)")
    case False
    then show ?thesis using assms timer_fire by (auto simp: fire.simps resolves_same)
  next
    case True
    show ?thesis
    proof (cases "callback (timers m ! h)")
      case (request_timeout ident q pr)
      then show ?thesis
        using assms True timer_fire
        by (auto simp: fire.simps settle_def clearTimeout_def dest!: resolves_settle_in)
    next
      case reconnect_cb
      let ?m1 = "clearTimeout h m\<lparr>reconnectTimer := None, reconnectAttempts := Suc (reconnectAttempts (clearTimeout h m))\<rparr>"
      have "fire ev m = snd (connect ?m1)" using True timer_fire reconnect_cb by (simp add: fire.simps)
      moreover have "promises ?m1 = promises m" by (simp add: clearTimeout_def)
      ultimately show ?thesis using assms connect_resolves[of ?m1 p v] timer_fire by auto
    next
      case ping_cb
      then show ?thesis
        using assms True timer_fire send_promises[of ping m]
        by (auto simp: fire.simps resolves_same split: option.splits sum.splits if_splits)
    qed
  qed
qed


lemma new_pubs_append [simp]: "published m1 = published m @ xs \<Longrightarrow> new_pubs m m1 = xs"
  by (simp add: new_pubs_def)

lemma connect_pubs: "ev_message x \<notin> set (new_pubs m (snd (connect m)))"
  by (auto simp: connect_def prim_defs new_pubs_def Let_def split: option.splits)

lemma disconnect_pubs: "ev_message x \<notin> set (new_pubs m (disconnect m))"
  by (simp add: disconnect_eq cleanup_eq new_pubs_def)

lemma request_pubs: "new_pubs m (snd (request ident q t m)) = []"
  by (auto simp: request_def new_promise_def setTimeout_def send_frame settle_def
      clearTimeout_def send_def update_socket_def new_pubs_def Let_def split: option.splits sum.splits)

lemma handleClose_pubs: "ev_message x \<notin> set (new_pubs m (handleClose m))"
  by (auto simp: handleClose_def cleanup_eq scheduleReconnect_def ws_emit_def setState_def
      setTimeout_def new_pubs_def Let_def)

lemma new_pubs_update_socket [simp]: "new_pubs (update_socket i f m) m1 = new_pubs m m1"
  by (simp add: new_pubs_def update_socket_def)

lemma fire_pubs:
  assumes "ev_message x \<in> set (new_pubs m (fire ev m))"
  shows "\<exists>i. ev = sock_message i (frame x)"
proof (cases ev)
  case (sock_open i)
  then show ?thesis
    using assms
    by (auto simp: fire.simps Let_def onOpen_cb_def startPing_eq settle_def ws_emit_def setState_def
        update_socket_def new_pubs_def split: if_splits option.splits)
next
  case (sock_error i)
  then show ?thesis
    using assms
    by (auto simp: fire.simps onError_cb_fields handleError_def ws_emit_def update_socket_def
        new_pubs_def split: if_splits option.splits)
next
  case (sock_close i)
  then show ?thesis
    using assms handleClose_pubs[of x "update_socket i (\<lambda>s. s\<lparr>readyState := CLOSED\<rparr>) m"]
    by (auto simp: fire.simps new_pubs_def update_socket_def split: if_splits)
next
  case (sock_message i d)
  then show ?thesis
    using assms
    by (auto simp: fire.simps handleMessage_def forward_def ws_emit_def settle_def clearTimeout_def
        new_pubs_def split: if_splits MessageData.splits ServerMessage.splits option.splits)
next
  case (timer_fire h)
  show ?thesis
  proof (cases "h < length (timers m) \<and> active (timers m ! h)")
    case False
    then show ?thesis using assms timer_fire by (auto simp: fire.simps new_pubs_def)
  next
    case True
    show ?thesis
    proof (cases "callback (timers m ! h)")
      case (request_timeout ident q pr)
      then show ?thesis
        using assms True timer_fire
        by (auto simp: fire.simps settle_def clearTimeout_def new_pubs_def)
    next
      case reconnect_cb
      let ?m1 = "clearTimeout h m\<lparr>reconnectTimer := None, reconnectAttempts := Suc (reconnectAttempts (clearTimeout h m))\<rparr>"
      have "fire ev m = snd (connect ?m1)" using True timer_fire reconnect_cb by (simp add: fire.simps)
      moreover have "published ?m1 = published m" by (simp add: clearTimeout_def)
      ultimately show ?thesis using assms connect_pubs[of x ?m1] by (simp add: new_pubs_def)
    next
      case ping_cb
      then show ?thesis
        using assms True timer_fire send_promises[of ping m]
        by (auto simp: fire.simps new_pubs_def split: option.splits sum.splits if_splits)
    qed
  qed
qed

lemma run_then_ws [simp]: "edge_ws (run_then old e p) = edge_ws e"
  by (auto simp: run_then_def edge_emit_def split: option.splits Outcome.splits)

lemma foldl_run_then_ws [simp]: "edge_ws (foldl (run_then old) e ps) = edge_ws e"
  by (induction ps arbitrary: e) simp_all

lemma run_then_caps:
  "capabilities (run_then old e p) \<noteq> capabilities e \<Longrightarrow>
   \<exists>v. resolves old (promises (edge_ws e)) p v"
  by (auto simp: run_then_def edge_emit_def resolves_def split: option.splits Outcome.splits if_splits)

lemma foldl_run_then_caps:
  "capabilities (foldl (run_then old) e ps) \<noteq> capabilities e \<Longrightarrow>
   \<exists>p \<in> set ps. \<exists>v. resolves old (promises (edge_ws e)) p v"
proof (induction ps arbitrary: e)
  case Nil
  then show ?case by simp
next
  case (Cons p ps)
  show ?case
  proof (cases "capabilities (run_then old e p) = capabilities e")
    case True
    then have "capabilities (foldl (run_then old) (run_then old e p) ps) \<noteq> capabilities (run_then old e p)"
      using Cons.prems by simp
    from Cons.IH[OF this] show ?thesis by auto
  next
    case False
    then show ?thesis using run_then_caps[of old e p] by auto
  qed
qed

lemma on_ws_step:
  "\<exists>tl. promises (edge_ws (on_ws ident ev e)) = promises (edge_ws e) @ tl \<and>
        (\<forall>x \<in> set tl. \<forall>v. x \<noteq> Some (Resolved v))"
  "p \<in> set (awaiting (on_ws ident ev e)) \<Longrightarrow>
     p \<in> set (awaiting e) \<or> length (promises (edge_ws e)) \<le> p"
  "capabilities (on_ws ident ev e) \<noteq> capabilities e \<Longrightarrow> \<exists>d. ev = ev_message (msg_capabilities d)"
proof -
  have r: "promises (snd (request ident q_capabilities 10000 (edge_ws e))) = promises (edge_ws e) @ [None] \<or>
   (\<exists>err. promises (snd (request ident q_capabilities 10000 (edge_ws e))) =
       promises (edge_ws e) @ [Some (Rejected err)])"
    by (rule promises_request)
  have f: "fst (request ident q_capabilities 10000 (edge_ws e)) = length (promises (edge_ws e))"
    by (simp add: request_def new_promise_def setTimeout_def Let_def split: sum.splits prod.splits)
  show "\<exists>tl. promises (edge_ws (on_ws ident ev e)) = promises (edge_ws e) @ tl \<and>
        (\<forall>x \<in> set tl. \<forall>v. x \<noteq> Some (Resolved v))"
    using r
    by (cases ev)
       (auto simp: on_ws_def getCapabilities_def edge_query_def ensureConnected_def edge_emit_def
          handleServerMessage_def handleEvent_def Let_def
          split: prod.splits sum.splits ServerMessage.splits EventKind.splits)
  show "p \<in> set (awaiting (on_ws ident ev e)) \<Longrightarrow>
     p \<in> set (awaiting e) \<or> length (promises (edge_ws e)) \<le> p"
    using f
    by (cases ev)
       (auto simp: on_ws_def getCapabilities_def edge_query_def ensureConnected_def edge_emit_def
          handleServerMessage_def handleEvent_def Let_def
          split: prod.splits sum.splits ServerMessage.splits EventKind.splits if_splits)
  show "capabilities (on_ws ident ev e) \<noteq> capabilities e \<Longrightarrow> \<exists>d. ev = ev_message (msg_capabilities d)"
    by (cases ev)
       (auto simp: on_ws_def getCapabilities_def edge_query_def ensureConnected_def edge_emit_def
          handleServerMessage_def handleEvent_def Let_def
          split: prod.splits sum.splits ServerMessage.splits EventKind.splits if_splits)
qed


lemma fold_on_ws:
  "(\<exists>tl. promises (edge_ws (foldl (\<lambda>e ev. on_ws ident ev e) e evs)) = promises (edge_ws e) @ tl \<and>
        (\<forall>x \<in> set tl. \<forall>v. x \<noteq> Some (Resolved v))) \<and>
   (\<forall>p \<in> set (awaiting (foldl (\<lambda>e ev. on_ws ident ev e) e evs)).
        p \<in> set (awaiting e) \<or> length (promises (edge_ws e)) \<le> p) \<and>
   (capabilities (foldl (\<lambda>e ev. on_ws ident ev e) e evs) \<noteq> capabilities e \<longrightarrow>
        (\<exists>d. ev_message (msg_capabilities d) \<in> set evs))"
proof (induction evs arbitrary: e)
  case Nil
  then show ?case by simp
next
  case (Cons ev evs)
  let ?e1 = "on_ws ident ev e"
  let ?e2 = "foldl (\<lambda>e ev. on_ws ident ev e) ?e1 evs"
  obtain t1 where t1: "promises (edge_ws ?e1) = promises (edge_ws e) @ t1"
      "\<forall>x \<in> set t1. \<forall>v. x \<noteq> Some (Resolved v)"
    using on_ws_step(1)[of ident ev e] by blast
  obtain t2 where t2: "promises (edge_ws ?e2) = promises (edge_ws ?e1) @ t2"
      "\<forall>x \<in> set t2. \<forall>v. x \<noteq> Some (Resolved v)"
    using Cons.IH[of ?e1] by blast
  have a: "\<exists>tl. promises (edge_ws ?e2) = promises (edge_ws e) @ tl \<and>
        (\<forall>x \<in> set tl. \<forall>v. x \<noteq> Some (Resolved v))"
    using t1 t2 by (intro exI[of _ "t1 @ t2"]) auto
  have b: "\<forall>p \<in> set (awaiting ?e2). p \<in> set (awaiting e) \<or> length (promises (edge_ws e)) \<le> p"
  proof
    fix p assume "p \<in> set (awaiting ?e2)"
    then have "p \<in> set (awaiting ?e1) \<or> length (promises (edge_ws ?e1)) \<le> p"
      using Cons.IH[of ?e1] by blast
    then show "p \<in> set (awaiting e) \<or> length (promises (edge_ws e)) \<le> p"
      using on_ws_step(2)[of p ident ev e] t1(1) by auto
  qed
  have c: "capabilities ?e2 \<noteq> capabilities e \<longrightarrow>
        (\<exists>d. ev_message (msg_capabilities d) \<in> set (ev # evs))"
  proof
    assume n: "capabilities ?e2 \<noteq> capabilities e"
    show "\<exists>d. ev_message (msg_capabilities d) \<in> set (ev # evs)"
    proof (cases "capabilities ?e1 = capabilities e")
      case True
      then have "capabilities ?e2 \<noteq> capabilities ?e1" using n by simp
      then show ?thesis using Cons.IH[of ?e1] by auto
    next
      case False
      then show ?thesis using on_ws_step(3)[of ident ev e] by auto
    qed
  qed
  show ?case using a b c by simp
qed

lemma deliver_caps:
  assumes "capabilities (deliver ident m e) \<noteq> capabilities e"
  shows "(\<exists>d. ev_message (msg_capabilities d) \<in> set (new_pubs m (edge_ws e))) \<or>
         (\<exists>p \<in> set (awaiting e). \<exists>v. resolves (promises m) (promises (edge_ws e)) p v)"
proof -
  let ?evs = "drop (length (published m)) (published (edge_ws e))"
  let ?e1 = "foldl (\<lambda>e ev. on_ws ident ev e) e ?evs"
  note f = fold_on_ws[of ident e ?evs]
  obtain tl where tl: "promises (edge_ws ?e1) = promises (edge_ws e) @ tl"
      "\<forall>x \<in> set tl. \<forall>v. x \<noteq> Some (Resolved v)"
    using f by blast
  have d: "deliver ident m e = foldl (run_then (promises m)) ?e1 (awaiting ?e1)"
    by (simp add: deliver_def Let_def)
  show ?thesis
  proof (cases "capabilities ?e1 = capabilities e")
    case False
    then show ?thesis using f by (auto simp: new_pubs_def)
  next
    case True
    then have "capabilities (foldl (run_then (promises m)) ?e1 (awaiting ?e1)) \<noteq> capabilities ?e1"
      using assms d by simp
    from foldl_run_then_caps[OF this]
    obtain p v where p: "p \<in> set (awaiting ?e1)"
      and r: "resolves (promises m) (promises (edge_ws ?e1)) p v" by blast
    have lt: "p < length (promises (edge_ws e))"
    proof (rule ccontr)
      assume "\<not> p < length (promises (edge_ws e))"
      then have ge: "length (promises (edge_ws e)) \<le> p" by simp
      have pl: "p < length (promises (edge_ws e) @ tl)" using r tl(1)
        by (simp add: resolves_def newly_settled_def)
      then have "(promises (edge_ws e) @ tl) ! p \<in> set tl"
        using ge by (simp add: nth_append)
      then show False using r tl by (auto simp: resolves_def)
    qed
    then have pa: "p \<in> set (awaiting e)" using f p by auto
    have "resolves (promises m) (promises (edge_ws e)) p v"
      using r lt tl(1) by (auto simp: resolves_def newly_settled_def nth_append)
    then show ?thesis using pa by blast
  qed
qed



lemma edge_examples:
  "edge_init = \<lparr>edge_ws = m_init, edge_options = DEFAULT_OPTIONS\<lparr>autoConnect := False\<rparr>,
      capabilities = None, awaiting = [], emitted = [], autoconnect_timer = False\<rparr>"
  "edge_connected = \<lparr>edge_ws = run [op_request ''q1'' q_capabilities 10000] m_connected,
      edge_options = DEFAULT_OPTIONS\<lparr>autoConnect := False\<rparr>,
      capabilities = None, awaiting = [1], emitted = [e_connect], autoconnect_timer = False\<rparr>"
proof -
  show i: "edge_init = \<lparr>edge_ws = m_init, edge_options = DEFAULT_OPTIONS\<lparr>autoConnect := False\<rparr>,
      capabilities = None, awaiting = [], emitted = [], autoconnect_timer = False\<rparr>"
    by (simp add: edge_init_def new_CleverenceEdge_def m_init_def DEFAULT_OPTIONS_def
        DEFAULT_WS_OPTIONS_def)
  have c: "connect m_init = (0, m_connecting)"
    by (simp add: example_states connect_def prim_defs Let_def)
  have o: "fire (sock_open 0) m_connecting = m_connected"
    by (simp add: example_states fire.simps onOpen_cb_def startPing_eq cancel_opt_def prim_defs
        Let_def DEFAULT_WS_OPTIONS_def)
  have n1: "new_pubs m_init m_connecting = [ev_statechange connecting]"
    and n2: "new_pubs m_connecting m_connected = [ev_statechange connected, ev_open]"
    by (simp_all add: example_states new_pubs_def)
  have s1: "edge_step ''q0'' call_connect edge_init =
      \<lparr>edge_ws = m_connecting, edge_options = DEFAULT_OPTIONS\<lparr>autoConnect := False\<rparr>,
       capabilities = None, awaiting = [], emitted = [], autoconnect_timer = False\<rparr>"
    using n1
    by (simp add: i edge_connect_def c deliver_def new_pubs_def on_ws_def Let_def)
  have r: "request ''q1'' q_capabilities 10000 m_connected =
             (1, run [op_request ''q1'' q_capabilities 10000] m_connected)"
    by (simp add: run_def example_states request_def send_def prim_defs Let_def)
  have pr: "promises (run [op_request ''q1'' q_capabilities 10000] m_connected) =
              [Some (Resolved None), None]"
    by (simp add: run_def example_states request_def send_def prim_defs Let_def)
  have pc: "promises m_connecting = [None]" "state m_connected = connected"
    by (simp_all add: example_states)
  show "edge_connected = \<lparr>edge_ws = run [op_request ''q1'' q_capabilities 10000] m_connected,
      edge_options = DEFAULT_OPTIONS\<lparr>autoConnect := False\<rparr>,
      capabilities = None, awaiting = [1], emitted = [e_connect], autoconnect_timer = False\<rparr>"
    unfolding edge_connected_def s1
    using n2
    by (simp add: o deliver_def new_pubs_def on_ws_def getCapabilities_def
        edge_query_def ensureConnected_def isConnected_def edge_emit_def r pr pc run_then_def
        newly_settled_def Let_def)
qed

text \<open>
  C7. While the transport's state is not connected, each of the eight command and query
  methods fails with the error "Not connected to Edge service. Call connect() first." and
  leaves the facade and its transport exactly as they were: nothing is written to a
  socket, no pending entry or timer is created, so nothing is kept for later delivery.
\<close>

theorem not_connected_fails:
  assumes "state (edge_ws e) \<noteq> connected"
  shows "triggerScan e = (Inl ''Not connected to Edge service. Call connect() first.'', e) \<and>
         setSymbologies symbologies e =
           (Inl ''Not connected to Edge service. Call connect() first.'', e) \<and>
         startRfidInventory opts e =
           (Inl ''Not connected to Edge service. Call connect() first.'', e) \<and>
         stopRfidInventory e = (Inl ''Not connected to Edge service. Call connect() first.'', e) \<and>
         getStatus ident e = (Inl ''Not connected to Edge service. Call connect() first.'', e) \<and>
         getCapabilities ident e =
           (Inl ''Not connected to Edge service. Call connect() first.'', e) \<and>
         getConfig ident e = (Inl ''Not connected to Edge service. Call connect() first.'', e) \<and>
         getRfidTags ident e = (Inl ''Not connected to Edge service. Call connect() first.'', e)"
  using assms
  by (simp add: triggerScan_def setSymbologies_def startRfidInventory_def stopRfidInventory_def
      getStatus_def getCapabilities_def getConfig_def getRfidTags_def edge_command_def
      edge_query_def ensureConnected_def isConnected_def)

theorem not_connected_fails_witness:
  "state (edge_ws edge_init) \<noteq> connected \<and>
   triggerScan edge_init = (Inl ''Not connected to Edge service. Call connect() first.'', edge_init) \<and>
   getStatus ''s1'' edge_init =
     (Inl ''Not connected to Edge service. Call connect() first.'', edge_init) \<and>
   sockets (edge_ws (snd (getRfidTags ''s2'' edge_init))) = [] \<and>
   pendingRequests (edge_ws (snd (getRfidTags ''s2'' edge_init))) = []"
proof -
  have h: "state (edge_ws edge_init) \<noteq> connected"
    by (simp add: edge_examples example_states)
  have s: "sockets (edge_ws edge_init) = []" "pendingRequests (edge_ws edge_init) = []"
    by (simp_all add: edge_examples example_states)
  show ?thesis
    using not_connected_fails [OF h, of "[]" None "''s1''"]
      not_connected_fails [OF h, of "[]" None "''s2''"] h s
    by simp
qed

subsection \<open>An invariant of the states a facade can reach\<close>

text \<open>
  The promises the facade awaits stay apart from the promises of \<^verbatim>\<open>connect\<close> calls: a
  call or an event of the transport never shrinks the promise table, and a socket's open
  listener holds a promise that was new when the socket was made.
\<close>

lemma grows_iff:
  "grows m m1 \<longleftrightarrow>
     length (promises m) \<le> length (promises m1) \<and>
     (\<forall>s \<in> set (sockets m1). \<forall>p. onOpen s = Some p \<longrightarrow>
        length (promises m) \<le> p \<or> (\<exists>s0 \<in> set (sockets m). onOpen s0 = Some p))"
  by (auto simp: grows_def list_all_iff list_ex_iff split: option.splits)

lemma grows_refl [simp]: "grows m m"
  by (auto simp: grows_iff)

lemma grows_trans:
  assumes a: "grows m m1" and b: "grows m1 m2"
  shows "grows m m2"
  unfolding grows_iff
proof (intro conjI ballI allI impI)
  show "length (promises m) \<le> length (promises m2)"
    using a b by (simp add: grows_iff)
  fix s p assume s: "s \<in> set (sockets m2)" and l: "onOpen s = Some p"
  from b s l have "length (promises m1) \<le> p \<or> (\<exists>s1 \<in> set (sockets m1). onOpen s1 = Some p)"
    unfolding grows_iff by blast
  then show "length (promises m) \<le> p \<or> (\<exists>s0 \<in> set (sockets m). onOpen s0 = Some p)"
  proof
    assume "length (promises m1) \<le> p"
    then show ?thesis using a by (simp add: grows_iff)
  next
    assume "\<exists>s1 \<in> set (sockets m1). onOpen s1 = Some p"
    then obtain s1 where "s1 \<in> set (sockets m1)" "onOpen s1 = Some p" by blast
    then show ?thesis using a unfolding grows_iff by blast
  qed
qed

lemma grows_fields:
  "promises m2 = promises m1 \<Longrightarrow> sockets m2 = sockets m1 \<Longrightarrow> grows m m2 = grows m m1"
  by (simp add: grows_def)

lemma grows_update_socket:
  assumes "\<And>s p. onOpen (f s) = Some p \<Longrightarrow> onOpen s = Some p"
  shows "grows m (update_socket i f m)"
  unfolding grows_iff
proof (intro conjI ballI allI impI)
  show "length (promises m) \<le> length (promises (update_socket i f m))"
    by (simp add: update_socket_def)
  fix s p assume s: "s \<in> set (sockets (update_socket i f m))" and l: "onOpen s = Some p"
  have "s \<in> set ((sockets m)[i := f (sockets m ! i)])" using s by (simp add: update_socket_def)
  then have "s \<in> set (sockets m) \<or> (i < length (sockets m) \<and> s = f (sockets m ! i))"
    by (rule set_update_nth)
  then have "\<exists>s0 \<in> set (sockets m). onOpen s0 = Some p"
  proof
    assume "s \<in> set (sockets m)" then show ?thesis using l by blast
  next
    assume a: "i < length (sockets m) \<and> s = f (sockets m ! i)"
    then have "onOpen (sockets m ! i) = Some p" using l assms by blast
    then show ?thesis using a nth_mem by blast
  qed
  then show "length (promises m) \<le> p \<or> (\<exists>s0 \<in> set (sockets m). onOpen s0 = Some p)" ..
qed

lemma connect_grows: "grows m (snd (connect m))"
  by (auto simp: grows_iff connect_def prim_defs Let_def split: option.splits)

lemma cleanup_grows: "grows m (cleanup m)"
  by (auto simp: grows_iff cleanup_eq dest!: set_close_current)

lemma disconnect_grows: "grows m (disconnect m)"
  using cleanup_grows[of m] by (simp add: disconnect_eq grows_def)

lemma handleClose_grows: "grows m (handleClose m)"
  using cleanup_grows[of m]
  by (auto simp: handleClose_def scheduleReconnect_def ws_emit_def setState_def setTimeout_def
      grows_def Let_def cleanup_eq)

lemma send_grows: "send msg m = Inr m1 \<Longrightarrow> grows m m1"
  by (auto simp: send_def split: option.splits if_splits intro!: grows_update_socket)

lemma request_fst: "fst (request ident q t m) = length (promises m)"
  by (simp add: request_def new_promise_def setTimeout_def Let_def split: sum.splits prod.splits)

lemma request_length: "length (promises (snd (request ident q t m))) = Suc (length (promises m))"
  using promises_request[of ident q t m] by auto

lemma request_listeners:
  "map onOpen (sockets (snd (request ident q t m))) = map onOpen (sockets m)"
  by (auto simp: request_def new_promise_def setTimeout_def settle_def clearTimeout_def send_def
      update_socket_def Let_def map_update_same split: option.splits sum.splits)

lemma grows_listeners:
  "length (promises m) \<le> length (promises m1) \<Longrightarrow>
   map onOpen (sockets m1) = map onOpen (sockets m) \<Longrightarrow> grows m m1"
proof -
  assume a: "length (promises m) \<le> length (promises m1)"
    and b: "map onOpen (sockets m1) = map onOpen (sockets m)"
  have "\<And>s. s \<in> set (sockets m1) \<Longrightarrow> \<exists>s0 \<in> set (sockets m). onOpen s0 = onOpen s"
  proof -
    fix s assume "s \<in> set (sockets m1)"
    then have "onOpen s \<in> set (map onOpen (sockets m1))" by simp
    then have "onOpen s \<in> set (map onOpen (sockets m))" using b by simp
    then show "\<exists>s0 \<in> set (sockets m). onOpen s0 = onOpen s" by auto
  qed
  then show ?thesis using a unfolding grows_iff by metis
qed

lemma request_grows: "grows m (snd (request ident q t m))"
  by (rule grows_listeners) (simp_all add: request_length request_listeners)

lemma handleMessage_grows: "grows m (handleMessage d m)"
  by (rule grows_listeners)
     (auto simp: handleMessage_def forward_def ws_emit_def settle_def clearTimeout_def
        split: MessageData.splits ServerMessage.splits option.splits)

lemma onOpen_cb_grows: "grows m (onOpen_cb p m)"
  by (rule grows_listeners)
     (auto simp: onOpen_cb_def startPing_eq settle_def ws_emit_def setState_def update_socket_def
        Let_def map_update_same split: option.splits)

lemma onError_cb_grows: "grows m (onError_cb p m)"
proof -
  define m1 where "m1 = (case ws m of
                  None \<Rightarrow> m
                | Some j \<Rightarrow> update_socket j (\<lambda>s. if onOpen s = Some p then s\<lparr>onOpen := None\<rparr> else s) m)"
  have g: "grows m m1"
    unfolding m1_def by (auto split: option.splits if_splits intro!: grows_update_socket)
  have "onError_cb p m = settle p (Rejected ''WebSocket connection failed'') m1"
    by (simp add: onError_cb_def m1_def Let_def)
  then show ?thesis using g by (simp add: grows_def settle_def)
qed

lemma fire_grows: "grows m (fire ev m)"
proof (cases ev)
  case (sock_open i)
  let ?m1 = "update_socket i (\<lambda>s. s\<lparr>readyState := OPEN\<rparr>) m"
  have g1: "grows m ?m1" by (auto intro!: grows_update_socket)
  have g2: "grows ?m1 (update_socket i (\<lambda>s. s\<lparr>onOpen := None\<rparr>) ?m1)"
    by (auto intro!: grows_update_socket)
  show ?thesis
    using sock_open g1 grows_trans[OF g1 grows_trans[OF g2 onOpen_cb_grows]]
    by (auto simp: fire.simps Let_def split: option.splits)
next
  case (sock_error i)
  let ?m2 = "update_socket i (\<lambda>s. s\<lparr>onError := None\<rparr>) m"
  have g2: "grows m ?m2" by (auto intro!: grows_update_socket)
  have he: "\<And>m1. grows m (handleError m1) = grows m m1"
    by (simp add: handleError_def ws_emit_def grows_def)
  have "\<And>p. grows m (onError_cb p ?m2)"
    using grows_trans[OF g2 onError_cb_grows] by simp
  then show ?thesis
    using sock_error by (auto simp: fire.simps he split: option.splits)
next
  case (sock_close i)
  let ?m1 = "update_socket i (\<lambda>s. s\<lparr>readyState := CLOSED\<rparr>) m"
  have g1: "grows m ?m1" by (auto intro!: grows_update_socket)
  show ?thesis using sock_close grows_trans[OF g1 handleClose_grows] by (simp add: fire.simps)
next
  case (sock_message i d)
  then show ?thesis by (simp add: fire.simps handleMessage_grows)
next
  case (timer_fire h)
  show ?thesis
  proof (cases "h < length (timers m) \<and> active (timers m ! h)")
    case False
    then show ?thesis using timer_fire by (auto simp: fire.simps)
  next
    case True
    show ?thesis
    proof (cases "callback (timers m ! h)")
      case ping_cb
      then have "fire (timer_fire h) m = run_callback ping_cb m" using True by (simp add: fire.simps)
      then show ?thesis using timer_fire send_grows[of ping m]
        by (auto split: option.splits sum.splits)
    next
      case reconnect_cb
      let ?m1 = "(clearTimeout h m)\<lparr>reconnectTimer := None,
               reconnectAttempts := Suc (reconnectAttempts (clearTimeout h m))\<rparr>"
      have f: "fire (timer_fire h) m = snd (connect ?m1)"
        using True reconnect_cb by (simp add: fire.simps)
      have "grows m ?m1 = grows m m" by (rule grows_fields) (simp_all add: clearTimeout_def)
      then have "grows m ?m1" by simp
      then show ?thesis using timer_fire f grows_trans[OF _ connect_grows[of ?m1]] by simp
    next
      case (request_timeout ident q p)
      then have f: "fire (timer_fire h) m =
        settle p (Rejected (''Request timeout: '' @ query_name q))
          ((clearTimeout h m)\<lparr>pendingRequests := AList.delete ident (pendingRequests (clearTimeout h m))\<rparr>)"
        using True by (simp add: fire.simps)
      show ?thesis unfolding timer_fire f
        by (rule grows_listeners) (simp_all add: settle_def clearTimeout_def)
    qed
  qed
qed

lemma awaiting_ok_iff:
  "awaiting_ok e \<longleftrightarrow>
     (\<forall>p \<in> set (awaiting e). p < length (promises (edge_ws e)) \<and>
        (\<forall>s \<in> set (sockets (edge_ws e)). onOpen s \<noteq> Some p))"
  by (simp add: awaiting_ok_def list_all_iff)

lemma awaiting_ok_grows:
  assumes a: "awaiting_ok e" and g: "grows (edge_ws e) m1"
  shows "awaiting_ok (e\<lparr>edge_ws := m1\<rparr>)"
  unfolding awaiting_ok_iff
proof (intro ballI conjI)
  fix p assume p: "p \<in> set (awaiting (e\<lparr>edge_ws := m1\<rparr>))"
  then have lt: "p < length (promises (edge_ws e))"
    and nl: "\<forall>s \<in> set (sockets (edge_ws e)). onOpen s \<noteq> Some p"
    using a by (simp_all add: awaiting_ok_iff)
  show "p < length (promises (edge_ws (e\<lparr>edge_ws := m1\<rparr>)))"
    using lt g by (simp add: grows_iff)
  fix s assume s: "s \<in> set (sockets (edge_ws (e\<lparr>edge_ws := m1\<rparr>)))"
  show "onOpen s \<noteq> Some p"
  proof
    assume "onOpen s = Some p"
    then have "length (promises (edge_ws e)) \<le> p \<or> (\<exists>s0 \<in> set (sockets (edge_ws e)). onOpen s0 = Some p)"
      using g s unfolding grows_iff by simp
    then show False using lt nl by auto
  qed
qed

lemma awaiting_ok_mono:
  "awaiting_ok e \<Longrightarrow> edge_ws e1 = edge_ws e \<Longrightarrow> set (awaiting e1) \<subseteq> set (awaiting e) \<Longrightarrow>
   awaiting_ok e1"
  unfolding awaiting_ok_iff by auto

lemma on_ws_other:
  "ev \<noteq> ev_open \<Longrightarrow> edge_ws (on_ws ident ev e) = edge_ws e \<and> awaiting (on_ws ident ev e) = awaiting e"
  by (cases ev)
     (auto simp: on_ws_def edge_emit_def handleServerMessage_def handleEvent_def Let_def
        split: ServerMessage.splits EventKind.splits)

lemma on_ws_inv:
  assumes w: "wf_transport (edge_ws e)" and a: "awaiting_ok e"
  shows "wf_transport (edge_ws (on_ws ident ev e)) \<and> awaiting_ok (on_ws ident ev e)"
proof (cases "ev = ev_open \<and> isConnected (edge_ws e)")
  case False
  have "edge_ws (on_ws ident ev e) = edge_ws e \<and> awaiting (on_ws ident ev e) = awaiting e"
  proof (cases "ev = ev_open")
    case True
    then have "\<not> isConnected (edge_ws e)" using False by simp
    then show ?thesis using True
      by (simp add: on_ws_def getCapabilities_def edge_query_def ensureConnected_def edge_emit_def Let_def)
  next
    case False
    then show ?thesis by (rule on_ws_other)
  qed
  then show ?thesis using w a awaiting_ok_mono[OF a, of "on_ws ident ev e"] by simp
next
  case True
  let ?m = "edge_ws e"
  let ?m1 = "snd (request ident q_capabilities 10000 ?m)"
  let ?p = "length (promises ?m)"
  obtain p0 m0 where r: "request ident q_capabilities 10000 ?m = (p0, m0)"
    by (cases "request ident q_capabilities 10000 ?m")
  have r0: "p0 = ?p" "m0 = ?m1"
    using request_fst[of ident q_capabilities 10000 ?m] r by simp_all
  have "edge_ws (on_ws ident ev e) = m0 \<and> awaiting (on_ws ident ev e) = awaiting e @ [p0]"
    using True r
    by (simp add: on_ws_def getCapabilities_def edge_query_def ensureConnected_def edge_emit_def Let_def)
  then have o: "edge_ws (on_ws ident ev e) = ?m1" "awaiting (on_ws ident ev e) = awaiting e @ [?p]"
    using r0 by simp_all
  have w1: "wf_transport ?m1" using w by (rule request_wf)
  have old: "\<forall>p \<in> set (awaiting e). p < length (promises ?m1) \<and>
        (\<forall>s \<in> set (sockets ?m1). onOpen s \<noteq> Some p)"
    using awaiting_ok_grows[OF a request_grows[of ?m ident q_capabilities 10000]]
    by (simp add: awaiting_ok_iff)
  have "\<forall>s \<in> set (sockets ?m). onOpen s \<noteq> Some ?p"
    using w unfolding wf_transport_def wf_parts_iff by fastforce
  then have "Some ?p \<notin> set (map onOpen (sockets ?m))" by auto
  then have "Some ?p \<notin> set (map onOpen (sockets ?m1))" by (simp add: request_listeners)
  then have new: "\<forall>s \<in> set (sockets ?m1). onOpen s \<noteq> Some ?p"
    by (metis image_eqI list.set_map)
  have "awaiting_ok (on_ws ident ev e)"
    unfolding awaiting_ok_iff o using old new by (auto simp: request_length)
  then show ?thesis using w1 o by simp
qed

lemma fold_on_ws_inv:
  "wf_transport (edge_ws e) \<Longrightarrow> awaiting_ok e \<Longrightarrow>
   wf_transport (edge_ws (foldl (\<lambda>e ev. on_ws ident ev e) e evs)) \<and>
   awaiting_ok (foldl (\<lambda>e ev. on_ws ident ev e) e evs)"
proof (induction evs arbitrary: e)
  case Nil
  then show ?case by simp
next
  case (Cons ev evs)
  from on_ws_inv[OF Cons.prems, of ident ev] Cons.IH[of "on_ws ident ev e"]
  show ?case by simp
qed

lemma run_then_awaiting: "set (awaiting (run_then old e p)) \<subseteq> set (awaiting e)"
  by (auto simp: run_then_def edge_emit_def split: option.splits Outcome.splits)

lemma foldl_run_then_awaiting: "set (awaiting (foldl (run_then old) e ps)) \<subseteq> set (awaiting e)"
proof (induction ps arbitrary: e)
  case Nil
  then show ?case by simp
next
  case (Cons p ps)
  show ?case using Cons[of "run_then old e p"] run_then_awaiting[of old e p] by auto
qed

lemma deliver_inv:
  assumes "wf_transport (edge_ws e)" "awaiting_ok e"
  shows "wf_transport (edge_ws (deliver ident old e)) \<and> awaiting_ok (deliver ident old e)"
proof -
  let ?e1 = "foldl (\<lambda>e ev. on_ws ident ev e) e (drop (length (published old)) (published (edge_ws e)))"
  have 1: "wf_transport (edge_ws ?e1)" "awaiting_ok ?e1"
    using fold_on_ws_inv[OF assms] by simp_all
  have d: "deliver ident old e = foldl (run_then (promises old)) ?e1 (awaiting ?e1)"
    by (simp add: deliver_def Let_def)
  show ?thesis unfolding d
    using 1 awaiting_ok_mono[OF 1(2), of "foldl (run_then (promises old)) ?e1 (awaiting ?e1)"]
      foldl_run_then_awaiting[of "promises old" ?e1 "awaiting ?e1"]
    by simp
qed

lemma edge_ws_inv:
  assumes "wf_transport (edge_ws e)" "awaiting_ok e" "wf_transport m1" "grows (edge_ws e) m1"
  shows "wf_transport (edge_ws (deliver ident old (e\<lparr>edge_ws := m1\<rparr>))) \<and>
         awaiting_ok (deliver ident old (e\<lparr>edge_ws := m1\<rparr>))"
  using assms by (intro deliver_inv) (simp_all add: awaiting_ok_grows)

lemma edge_step_inv:
  assumes w: "wf_transport (edge_ws e)" and a: "awaiting_ok e"
  shows "wf_transport (edge_ws (edge_step ident op e)) \<and> awaiting_ok (edge_step ident op e)"
proof (cases op)
  case call_connect
  then show ?thesis
    using edge_ws_inv[of e "snd (connect (edge_ws e))" ident "edge_ws e",
        OF w a connect_wf[OF w] connect_grows]
    by (auto simp: edge_connect_def split: prod.splits)
next
  case call_disconnect
  then show ?thesis
    using edge_ws_inv[of e "disconnect (edge_ws e)" ident "edge_ws e",
        OF w a disconnect_wf[OF w] disconnect_grows]
    by (simp add: edge_disconnect_def)
next
  case (call_command msg)
  show ?thesis
  proof (cases "ensureConnected e")
    case (Inl err)
    then show ?thesis using call_command w a by (simp add: edge_command_def)
  next
    case (Inr u)
    show ?thesis
    proof (cases "send msg (edge_ws e)")
      case (Inl err)
      then show ?thesis using call_command Inr w a by (simp add: edge_command_def command_def)
    next
      case (Inr m1)
      then show ?thesis
        using call_command \<open>ensureConnected e = Inr u\<close> send_wf[OF Inr w]
          awaiting_ok_grows[OF a send_grows[OF Inr]]
        by (simp add: edge_command_def command_def)
    qed
  qed
next
  case (call_query q)
  show ?thesis
  proof (cases "ensureConnected e")
    case (Inl err)
    then show ?thesis using call_query w a by (simp add: edge_query_def)
  next
    case (Inr u)
    then show ?thesis
      using call_query request_wf[OF w, of ident q 10000]
        awaiting_ok_grows[OF a request_grows[of "edge_ws e" ident q 10000]]
      by (auto simp: edge_query_def split: prod.splits)
  qed
next
  case (transport_event ev)
  then show ?thesis
    using edge_ws_inv[of e "fire ev (edge_ws e)" ident "edge_ws e",
        OF w a fire_wf[OF w] fire_grows]
    by simp
next
  case autoconnect_fire
  let ?e = "e\<lparr>autoconnect_timer := False\<rparr>"
  have a1: "awaiting_ok ?e" using a by (simp add: awaiting_ok_def)
  have w1: "wf_transport (edge_ws ?e)" using w by simp
  have g: "grows (edge_ws ?e) (snd (connect (edge_ws e)))" using connect_grows[of "edge_ws e"] by simp
  show ?thesis
    using autoconnect_fire w a
      edge_ws_inv[of ?e "snd (connect (edge_ws e))" ident "edge_ws e", OF w1 a1 connect_wf[OF w] g]
    by (auto simp: edge_connect_def split: prod.splits)
qed

lemma edge_run_inv:
  "wf_transport (edge_ws e) \<Longrightarrow> awaiting_ok e \<Longrightarrow>
   wf_transport (edge_ws (edge_run ops e)) \<and> awaiting_ok (edge_run ops e)"
  unfolding edge_run_def
proof (induction ops arbitrary: e)
  case Nil
  then show ?case by simp
next
  case (Cons x ops)
  obtain ident op where x: "x = (ident, op)" by (cases x)
  from edge_step_inv[OF Cons.prems, of ident op] Cons.IH[of "edge_step ident op e"] x
  show ?case by simp
qed

lemma reachable_awaiting: "awaiting_ok (edge_run ops (new_CleverenceEdge opts ce))"
proof -
  have "wf_transport (edge_ws (new_CleverenceEdge opts ce))"
    by (simp add: new_CleverenceEdge_def wf_new)
  moreover have "awaiting_ok (new_CleverenceEdge opts ce)"
    by (simp add: new_CleverenceEdge_def awaiting_ok_def)
  ultimately show ?thesis using edge_run_inv by blast
qed


text \<open>
  C10. \<^verbatim>\<open>disconnect()\<close> leaves the capability cache as it was, whatever it holds. And in
  every state that a facade reaches from its construction, a call or an event changes the
  cache only if it is the arrival of a capabilities push frame, or the arrival of a success
  response that matches the pending capabilities query issued when the socket opened.
\<close>

theorem capabilities_cache_frame:
  "capabilities (edge_disconnect ident e) = capabilities e \<and>
   (e1 = edge_run ops0 (new_CleverenceEdge opts ce) \<and>
    capabilities (edge_step ident1 op e1) \<noteq> capabilities e1 \<longrightarrow>
      (\<exists>i d. op = transport_event (sock_message i (frame (msg_capabilities d)))) \<or>
      (\<exists>i rid rd pr. op = transport_event (sock_message i (frame (msg_response_ok rid rd))) \<and>
           map_of (pendingRequests (edge_ws e1)) rid = Some pr \<and>
           settles pr \<in> set (awaiting e1)))"
proof (intro conjI impI)
  show "capabilities (edge_disconnect ident e) = capabilities e"
  proof (rule ccontr)
    assume "capabilities (edge_disconnect ident e) \<noteq> capabilities e"
    then have "capabilities (deliver ident (edge_ws e) (e\<lparr>edge_ws := disconnect (edge_ws e)\<rparr>)) \<noteq>
               capabilities (e\<lparr>edge_ws := disconnect (edge_ws e)\<rparr>)"
      by (simp add: edge_disconnect_def)
    from deliver_caps[OF this] show False
      using disconnect_pubs[of _ "edge_ws e"] disconnect_resolves[of "edge_ws e"] by auto
  qed
next
  assume r: "e1 = edge_run ops0 (new_CleverenceEdge opts ce) \<and>
    capabilities (edge_step ident1 op e1) \<noteq> capabilities e1"
  have "awaiting_ok e1" using r reachable_awaiting by simp
  moreover have "capabilities (edge_step ident1 op e1) \<noteq> capabilities e1"
    using r by (rule conjunct2)
  ultimately have a: "awaiting_ok e1 \<and> capabilities (edge_step ident1 op e1) \<noteq> capabilities e1"
    by (rule conjI)
  let ?m = "edge_ws e1"
  have inr: "\<And>p. p \<in> set (awaiting e1) \<Longrightarrow> p < length (promises ?m)"
    using a by (auto simp: awaiting_ok_def list_all_iff)
  have nol: "\<And>p i. p \<in> set (awaiting e1) \<Longrightarrow> i < length (sockets ?m) \<Longrightarrow>
               onOpen (sockets ?m ! i) \<noteq> Some p"
    using a by (auto simp: awaiting_ok_def list_all_iff)
  have conn: "\<And>e2. edge_ws e2 = ?m \<Longrightarrow> awaiting e2 = awaiting e1 \<Longrightarrow>
                capabilities (snd (edge_connect ident1 e2)) = capabilities e2"
  proof (rule ccontr)
    fix e2 assume e2: "edge_ws e2 = ?m" "awaiting e2 = awaiting e1"
      and n: "capabilities (snd (edge_connect ident1 e2)) \<noteq> capabilities e2"
    then have "capabilities (deliver ident1 ?m (e2\<lparr>edge_ws := snd (connect ?m)\<rparr>)) \<noteq>
               capabilities (e2\<lparr>edge_ws := snd (connect ?m)\<rparr>)"
      by (simp add: edge_connect_def split: prod.splits)
    from deliver_caps[OF this] show False
      using connect_pubs[of _ ?m] connect_resolves[of ?m] inr e2 by auto
  qed
  show "(\<exists>i d. op = transport_event (sock_message i (frame (msg_capabilities d)))) \<or>
      (\<exists>i rid rd pr. op = transport_event (sock_message i (frame (msg_response_ok rid rd))) \<and>
           map_of (pendingRequests (edge_ws e1)) rid = Some pr \<and>
           settles pr \<in> set (awaiting e1))"
  proof (cases op)
    case call_connect
    then show ?thesis using a conn[of e1] by simp
  next
    case call_disconnect
    have "capabilities (edge_disconnect ident1 e1) = capabilities e1"
    proof (rule ccontr)
      assume "capabilities (edge_disconnect ident1 e1) \<noteq> capabilities e1"
      then have "capabilities (deliver ident1 ?m (e1\<lparr>edge_ws := disconnect ?m\<rparr>)) \<noteq>
               capabilities (e1\<lparr>edge_ws := disconnect ?m\<rparr>)"
        by (simp add: edge_disconnect_def)
      from deliver_caps[OF this] show False
        using disconnect_pubs[of _ ?m] disconnect_resolves[of ?m] by auto
    qed
    then show ?thesis using a call_disconnect by simp
  next
    case (call_command msg)
    then show ?thesis
      using a by (auto simp: edge_command_def split: sum.splits)
  next
    case (call_query q)
    then show ?thesis
      using a by (auto simp: edge_query_def split: sum.splits prod.splits)
  next
    case autoconnect_fire
    then show ?thesis
      using a conn[of "e1\<lparr>autoconnect_timer := False\<rparr>"] by (auto split: if_splits)
  next
    case (transport_event ev)
    then have "capabilities (deliver ident1 ?m (e1\<lparr>edge_ws := fire ev ?m\<rparr>)) \<noteq>
               capabilities (e1\<lparr>edge_ws := fire ev ?m\<rparr>)"
      using a by simp
    from deliver_caps[OF this]
    consider (push) d where "ev_message (msg_capabilities d) \<in> set (new_pubs ?m (fire ev ?m))"
      | (res) p v where "p \<in> set (awaiting e1)" "resolves (promises ?m) (promises (fire ev ?m)) p v"
      by auto
    then show ?thesis
    proof cases
      case push
      then show ?thesis using fire_pubs[OF push] transport_event by auto
    next
      case res
      from fire_resolves[OF res(2)] show ?thesis
        using res(1) inr[OF res(1)] nol[OF res(1)] transport_event by auto
    qed
  qed
qed

theorem capabilities_cache_frame_witness:
  "edge_connected =
     edge_run [(''q0'', call_connect), (''q1'', transport_event (sock_open 0))]
       (new_CleverenceEdge (DEFAULT_OPTIONS\<lparr>autoConnect := False\<rparr>) None) \<and>
   capabilities edge_connected = None \<and>
   capabilities edge_cached = Some ''{zebra}'' \<and>
   map_of (pendingRequests (edge_ws edge_connected)) ''q1'' = Some \<lparr>settles = 1, timeout = 1\<rparr> \<and>
   awaiting edge_connected = [1] \<and>
   capabilities (edge_disconnect ''q3'' edge_cached) = Some ''{zebra}'' \<and>
   capabilities (edge_disconnect ''q3'' edge_connected) = None"
proof -
  let ?rd = "\<lparr>rd_query = q_capabilities, rd_result = ''{zebra}''\<rparr>"
  let ?op = "transport_event (sock_message 0 (frame (msg_response_ok ''q1'' ?rd)))"
  have w: "edge_ws edge_connected =
      m_connected\<lparr>pendingRequests := [(''q1'', \<lparr>settles = 1, timeout = 1\<rparr>)],
        sockets := [\<lparr>ws_url = ''ws://localhost:8585'', readyState = OPEN, onOpen = None,
                     onError = None, sent = [query ''q1'' q_capabilities]\<rparr>],
        timers := [\<lparr>callback = ping_cb, delay = 30000, active = True\<rparr>,
                   \<lparr>callback = request_timeout ''q1'' q_capabilities 1, delay = 10000, active = True\<rparr>],
        promises := [Some (Resolved None), None]\<rparr>"
    by (simp add: edge_examples run_def example_states request_def send_def prim_defs Let_def)
  have ok: "edge_connected =
     edge_run [(''q0'', call_connect), (''q1'', transport_event (sock_open 0))]
       (new_CleverenceEdge (DEFAULT_OPTIONS\<lparr>autoConnect := False\<rparr>) None)"
    by (simp add: edge_connected_def edge_init_def edge_run_def)
  have c0: "capabilities edge_connected = None" "awaiting edge_connected = [1]"
    by (simp_all add: edge_examples)
  have pq: "map_of (pendingRequests (edge_ws edge_connected)) ''q1'' = Some \<lparr>settles = 1, timeout = 1\<rparr>"
    by (simp add: w)
  have c1: "capabilities edge_cached = Some ''{zebra}''"
    by (simp add: edge_cached_def deliver_def fire.simps w example_states readyState_of_def
        handleMessage_def settle_def settle_in_def clearTimeout_def cancel_def new_pubs_def
        run_then_def newly_settled_def edge_emit_def c0 Let_def)
  have d1: "capabilities (edge_disconnect ''q3'' edge_cached) = Some ''{zebra}''"
    using capabilities_cache_frame [of "''q3''" edge_cached edge_connected
        "[(''q0'', call_connect), (''q1'', transport_event (sock_open 0))]"
        "DEFAULT_OPTIONS\<lparr>autoConnect := False\<rparr>" None "''q2''" ?op] c1
    by simp
  have d2: "capabilities (edge_disconnect ''q3'' edge_connected) = None"
    using capabilities_cache_frame [of "''q3''" edge_connected edge_connected
        "[(''q0'', call_connect), (''q1'', transport_event (sock_open 0))]"
        "DEFAULT_OPTIONS\<lparr>autoConnect := False\<rparr>" None "''q2''" ?op] c0
    by simp
  show ?thesis using ok c0 c1 pq d1 d2 by blast
qed

end
